theory Spec2Isabelle
  imports Complex_Main "HOL-Library.Sublist"
begin

section \<open>Request governance of the chat backend (lambda.js)\<close>

text \<open>
  The model follows the second, current version of \<^verbatim>\<open>index.js\<close> in \<^verbatim>\<open>src/lambda.js\<close>
  (the one with embeddings and retrieval). Timestamps are the integer milliseconds of
  \<^verbatim>\<open>Date.now()\<close>; every call of \<^verbatim>\<open>msNow()\<close> in the source is an explicit argument of
  the model, so that a theorem can say at which time a call happens. The process-wide
  \<^verbatim>\<open>Map\<close> objects are partial functions from keys to values, and a function that mutates
  them returns the updated map. A thrown \<^verbatim>\<open>Error\<close> is the left summand of the result.
\<close>

subsection \<open>Constants\<close>

definition MAX_MENU_CHUNK :: nat where "MAX_MENU_CHUNK = 15000"
definition MAX_EMBED_CHUNK_CHARS :: nat where "MAX_EMBED_CHUNK_CHARS = 1400"
definition RETRIEVAL_TOP_K_DEFAULT :: nat where "RETRIEVAL_TOP_K_DEFAULT = 4"
definition RETRIEVAL_TOP_K_BROAD :: nat where "RETRIEVAL_TOP_K_BROAD = 7"
definition CACHE_TTL :: int where "CACHE_TTL = 6 * 60 * 60 * 1000"
definition RL_WINDOW_MS :: int where "RL_WINDOW_MS = 60 * 1000"
definition RL_LIMIT :: int where "RL_LIMIT = 12"
definition SPAM_WINDOW_MS :: int where "SPAM_WINDOW_MS = 5 * 60 * 1000"
definition SPAM_LIMIT :: int where "SPAM_LIMIT = 30"
definition SPAM_BLOCK_MS :: int where "SPAM_BLOCK_MS = 3 * 60 * 1000"
definition MIN_INTERVAL_MS :: int where "MIN_INTERVAL_MS = 650"

subsection \<open>Errors and per-client state\<close>

text \<open>
  The \<^verbatim>\<open>Error\<close> objects of the governance functions: the message, \<^verbatim>\<open>err.statusCode\<close>,
  \<^verbatim>\<open>err.retryAfterSec\<close> (absent on BUSY) and \<^verbatim>\<open>err.spam\<close> (absent, hence falsy, outside
  the spam guard).
\<close>

record error =
  message :: string
  statusCode :: int
  retryAfterSec :: "int option"
  spam :: bool

record window =
  windowStart :: int
  count :: int

record rateSt = window +
  resetAt :: int

record spamSt = window +
  blockedUntil :: int
  lastAt :: int

text \<open>
  \<^verbatim>\<open>Math.max(1, Math.ceil(ms / 1000))\<close> on an integer number of milliseconds. The ceiling
  of an integer quotient is written with integer division; \<open>retrySeconds_ceiling\<close> below
  ties it to the ceiling of the real quotient.
\<close>

definition retrySeconds :: "int \<Rightarrow> int" where
  "retrySeconds ms = max 1 (- ((- ms) div 1000))"

subsection \<open>RateLimiter\<close>

text \<open>\<^verbatim>\<open>rateState.get(key) || { windowStart: now, count: 0, resetAt: now + RL_WINDOW_MS }\<close>\<close>

definition rateGet :: "int \<Rightarrow> string \<Rightarrow> (string \<rightharpoonup> rateSt) \<Rightarrow> rateSt" where
  "rateGet now key rateState =
     (case rateState key of
        Some s \<Rightarrow> s
      | None \<Rightarrow> \<lparr>windowStart = now, count = 0, resetAt = now + RL_WINDOW_MS\<rparr>)"

definition applyRateLimitOrThrow ::
  "int \<Rightarrow> string \<Rightarrow> (string \<rightharpoonup> rateSt) \<Rightarrow> (error + unit) \<times> (string \<rightharpoonup> rateSt)" where
  "applyRateLimitOrThrow now key rateState =
     (let st = rateGet now key rateState;
          st = (if now - windowStart st > RL_WINDOW_MS
                then st\<lparr>windowStart := now, count := 0, resetAt := now + RL_WINDOW_MS\<rparr>
                else st);
          st = st\<lparr>count := count st + 1\<rparr>;
          rateState = rateState(key \<mapsto> st)
      in if count st > RL_LIMIT
         then (Inl \<lparr>message = ''RATE_LIMIT'', statusCode = 429,
                    retryAfterSec = Some (retrySeconds (resetAt st - now)), spam = False\<rparr>,
               rateState)
         else (Inr (), rateState))"

text \<open>Running the limiter for one key at a list of times, collecting the outcomes.\<close>

fun rateCalls ::
  "string \<Rightarrow> int list \<Rightarrow> (string \<rightharpoonup> rateSt) \<Rightarrow> (error + unit) list \<times> (string \<rightharpoonup> rateSt)" where
  "rateCalls key [] rs = ([], rs)"
| "rateCalls key (t # ts) rs =
     (let (r, rs') = applyRateLimitOrThrow t key rs;
          (rest, rs'') = rateCalls key ts rs'
      in (r # rest, rs''))"

subsection \<open>SpamGuard\<close>

text \<open>\<^verbatim>\<open>spamState.get(key) || { windowStart: now, count: 0, blockedUntil: 0, lastAt: 0 }\<close>\<close>

definition spamGet :: "int \<Rightarrow> string \<Rightarrow> (string \<rightharpoonup> spamSt) \<Rightarrow> spamSt" where
  "spamGet now key spamState =
     (case spamState key of
        Some s \<Rightarrow> s
      | None \<Rightarrow> \<lparr>windowStart = now, count = 0, blockedUntil = 0, lastAt = 0\<rparr>)"

text \<open>
  The three tiers in the order of the source. A number is truthy when it is not 0, which is
  how \<^verbatim>\<open>st.blockedUntil && ...\<close> and \<^verbatim>\<open>st.lastAt && ...\<close> read. The cooldown branch throws
  before any assignment and without \<^verbatim>\<open>spamState.set\<close>.
\<close>

definition applySpamGuardOrThrow ::
  "int \<Rightarrow> string \<Rightarrow> (string \<rightharpoonup> spamSt) \<Rightarrow> (error + unit) \<times> (string \<rightharpoonup> spamSt)" where
  "applySpamGuardOrThrow now key spamState =
     (let st = spamGet now key spamState
      in if blockedUntil st \<noteq> 0 \<and> now < blockedUntil st
         then (Inl \<lparr>message = ''COOLDOWN'', statusCode = 429,
                    retryAfterSec = Some (retrySeconds (blockedUntil st - now)), spam = True\<rparr>,
               spamState)
         else if lastAt st \<noteq> 0 \<and> now - lastAt st < MIN_INTERVAL_MS
         then (let st = st\<lparr>blockedUntil := now + 3000\<rparr>
               in (Inl \<lparr>message = ''TOO_FAST'', statusCode = 429,
                        retryAfterSec = Some 3, spam = True\<rparr>,
                   spamState(key \<mapsto> st)))
         else (let st = (if now - windowStart st > SPAM_WINDOW_MS
                         then st\<lparr>windowStart := now, count := 0\<rparr>
                         else st);
                   st = st\<lparr>count := count st + 1\<rparr>;
                   st = st\<lparr>lastAt := now\<rparr>
               in if count st > SPAM_LIMIT
                  then (let st = st\<lparr>blockedUntil := now + SPAM_BLOCK_MS\<rparr>
                        in (Inl \<lparr>message = ''SPAM_WINDOW'', statusCode = 429,
                                 retryAfterSec = Some (retrySeconds SPAM_BLOCK_MS), spam = True\<rparr>,
                            spamState(key \<mapsto> st)))
                  else (Inr (), spamState(key \<mapsto> st))))"

text \<open>The guard for one key at a list of times, collecting the outcomes.\<close>

fun spamCalls ::
  "string \<Rightarrow> int list \<Rightarrow> (string \<rightharpoonup> spamSt) \<Rightarrow> (error + unit) list \<times> (string \<rightharpoonup> spamSt)" where
  "spamCalls key [] ss = ([], ss)"
| "spamCalls key (t # ts) ss =
     (let (r, ss') = applySpamGuardOrThrow t key ss;
          (rest, ss'') = spamCalls key ts ss'
      in (r # rest, ss''))"

text \<open>
  The seconds that remain at time \<open>t\<close> of a block that lasts until \<open>until\<close>, and the error
  of a call at that time.
\<close>

definition cooldownSeconds :: "int \<Rightarrow> int \<Rightarrow> int" where
  "cooldownSeconds until t = max 1 \<lceil>real_of_int (until - t) / 1000\<rceil>"

definition cooldownError :: "int \<Rightarrow> int \<Rightarrow> error" where
  "cooldownError until t =
     \<lparr>message = ''COOLDOWN'', statusCode = 429,
      retryAfterSec = Some (cooldownSeconds until t), spam = True\<rparr>"

text \<open>
  A client with thirty counted requests in the window that began at time 1000, the last of
  them at time 50000; and a client whose only request so far was at time 50000.
\<close>

definition spamState_full :: "string \<rightharpoonup> spamSt" where
  "spamState_full =
     [''cid:abcdefgh'' \<mapsto> \<lparr>windowStart = 1000, count = 30, blockedUntil = 0, lastAt = 50000\<rparr>]"

definition spamState_one :: "string \<rightharpoonup> spamSt" where
  "spamState_one =
     [''cid:abcdefgh'' \<mapsto> \<lparr>windowStart = 50000, count = 1, blockedUntil = 0, lastAt = 50000\<rparr>]"

subsection \<open>InFlightGuard\<close>

text \<open>
  \<^verbatim>\<open>inFlight\<close> is a \<^verbatim>\<open>Map\<close> from client keys to \<^verbatim>\<open>true\<close>; \<^verbatim>\<open>inFlight.get(key)\<close> is truthy
  when the key is stored with \<^verbatim>\<open>true\<close>. The BUSY error has no \<^verbatim>\<open>retryAfterSec\<close>.
\<close>

definition applyBusyGuardOrThrow ::
  "string \<Rightarrow> (string \<rightharpoonup> bool) \<Rightarrow> (error + unit) \<times> (string \<rightharpoonup> bool)" where
  "applyBusyGuardOrThrow key inFlight =
     (if inFlight key = Some True
      then (Inl \<lparr>message = ''BUSY'', statusCode = 409, retryAfterSec = None, spam = False\<rparr>,
            inFlight)
      else (Inr (), inFlight(key \<mapsto> True)))"

definition clearBusy :: "string \<Rightarrow> (string \<rightharpoonup> bool) \<Rightarrow> (string \<rightharpoonup> bool)" where
  "clearBusy key inFlight = inFlight(key := None)"

subsection \<open>Strings\<close>

text \<open>
  A JavaScript string is a list of code units; \<^verbatim>\<open>s.length\<close> is \<open>length\<close>,
  \<^verbatim>\<open>s.slice(0, n)\<close> is \<open>take n\<close>. A \<open>char\<close> stands for one code unit below 256. The white
  space that \<^verbatim>\<open>trim()\<close> removes is, in that range, tab, line feed, vertical tab, form feed,
  carriage return, space and no-break space.
\<close>

definition isWhiteSpace :: "char \<Rightarrow> bool" where
  "isWhiteSpace c = (of_char c \<in> {9, 10, 11, 12, 13, 32, 160 :: nat})"

definition trim :: "string \<Rightarrow> string" where
  "trim s = rev (dropWhile isWhiteSpace (rev (dropWhile isWhiteSpace s)))"

text \<open>\<^verbatim>\<open>xs.join(sep)\<close>\<close>

fun join :: "string \<Rightarrow> string list \<Rightarrow> string" where
  "join sep [] = []"
| "join sep [x] = x"
| "join sep (x # y # ys) = x @ sep @ join sep (y # ys)"

subsection \<open>ResponseCache\<close>

definition VALID_CATEGORIES :: "string set" where
  "VALID_CATEGORIES =
     {''auto'', ''full'', ''starters_soups'', ''mains'', ''desserts'', ''drinks'', ''info''}"

definition normalizeCategory :: "string \<Rightarrow> string" where
  "normalizeCategory category = (if category \<in> VALID_CATEGORIES then category else ''auto'')"

text \<open>
  A history turn, as far as the cache key reads it: \<open>role\<close> is the text of
  \<^verbatim>\<open>x?.role || ""\<close> and \<open>content\<close> the text of \<^verbatim>\<open>String(x?.content || "")\<close>, so a missing
  or falsy field is the empty string.
\<close>

record turn =
  role :: string
  content :: string

text \<open>\<^verbatim>\<open>history.slice(-4)\<close>: the last four elements, or all of them when there are fewer.\<close>

definition lastFour :: "'a list \<Rightarrow> 'a list" where
  "lastFour xs = drop (length xs - 4) xs"

text \<open>
  \<^verbatim>\<open>makeCacheKey(message, history, category)\<close>; the handlers pass a string as the message, so
  \<^verbatim>\<open>String(message || "")\<close> is the message itself.
\<close>

definition makeCacheKey :: "string \<Rightarrow> turn list \<Rightarrow> string \<Rightarrow> string" where
  "makeCacheKey msg history category =
     (let safeCategory = normalizeCategory category;
          h = lastFour history;
          hKey = join ''|'' (map (\<lambda>x. role x @ '':'' @ take 140 (content x)) h)
      in safeCategory @ ''::'' @ take 600 msg @ ''::'' @ hKey)"

record answer =
  reply :: string

record cacheEntry = answer +
  ts :: int

record computed = answer +
  cached :: bool

text \<open>
  \<^verbatim>\<open>cleanupCache\<close> deletes every entry with \<^verbatim>\<open>now - v.ts > CACHE_TTL\<close>; the stored values
  are objects, so \<^verbatim>\<open>!v\<close> is false.
\<close>

definition cleanupCache :: "int \<Rightarrow> (string \<rightharpoonup> cacheEntry) \<Rightarrow> (string \<rightharpoonup> cacheEntry)" where
  "cleanupCache now cache =
     (\<lambda>k. case cache k of
            None \<Rightarrow> None
          | Some v \<Rightarrow> if now - ts v > CACHE_TTL then None else Some v)"

subsection \<open>The process state and the buffered handler\<close>

text \<open>
  The four process-wide maps. \<open>generations\<close> is not a variable of the source: it counts the
  requests that went past the cache test into the generation capability (the code that ends
  in \<^verbatim>\<open>client.chat.completions.create\<close>), so that a theorem can say that a request did not
  invoke it.
\<close>

record globals =
  rateState :: "string \<rightharpoonup> rateSt"
  spamState :: "string \<rightharpoonup> spamSt"
  inFlight :: "string \<rightharpoonup> bool"
  cache :: "string \<rightharpoonup> cacheEntry"
  generations :: nat

text \<open>
  The times at which one request reads the clock: in the rate limiter, in the spam guard, in
  \<^verbatim>\<open>cleanupCache\<close>, at the test of the cached entry and at \<^verbatim>\<open>cache.set\<close>.
\<close>

record clock =
  tRate :: int
  tSpam :: int
  tClean :: int
  tCheck :: int
  tStore :: int

text \<open>
  \<^verbatim>\<open>computeReply\<close>. Everything between the cache test and \<^verbatim>\<open>cache.set\<close> (reading the menu,
  retrieval, the completion call) belongs to the generation capability: \<open>gen\<close> is its
  outcome for this request, either the error it throws or the \<^verbatim>\<open>content\<close> of the first
  choice (empty when absent). The model runs the function without interleaving other
  requests at its \<^verbatim>\<open>await\<close> points.
\<close>

definition computeReply ::
  "clock \<Rightarrow> (error + string) \<Rightarrow> string \<Rightarrow> turn list \<Rightarrow> string \<Rightarrow> globals
     \<Rightarrow> (error + computed) \<times> globals" where
  "computeReply clk gen msg history category g =
     (let g = g\<lparr>cache := cleanupCache (tClean clk) (cache g)\<rparr>;
          cacheKey = makeCacheKey msg history category;
          hit = (case cache g cacheKey of
                   None \<Rightarrow> None
                 | Some c \<Rightarrow> if tCheck clk - ts c < CACHE_TTL then Some c else None)
      in case hit of
           Some c \<Rightarrow> (Inr \<lparr>reply = reply c, cached = True\<rparr>, g)
         | None \<Rightarrow>
             (let g = g\<lparr>generations := generations g + 1\<rparr>
              in case gen of
                   Inl e \<Rightarrow> (Inl e, g)
                 | Inr raw \<Rightarrow>
                     (let r = trim raw
                      in (Inr \<lparr>reply = r, cached = False\<rparr>,
                          g\<lparr>cache := (cache g)(cacheKey \<mapsto> \<lparr>reply = r, ts = tStore clk\<rparr>)\<rparr>))))"

text \<open>
  \<^verbatim>\<open>getClientKey({ clientId, ip })\<close>: \<open>clientId\<close> is \<open>None\<close> when the body has no string
  there.
\<close>

definition getClientKey :: "string option \<Rightarrow> string \<Rightarrow> string" where
  "getClientKey clientId ip =
     (case clientId of
        Some c \<Rightarrow> if c \<noteq> [] \<and> length c \<ge> 8 then ''cid:'' @ c
                  else ''ip:'' @ (if ip = [] then ''unknown'' else ip)
      | None \<Rightarrow> ''ip:'' @ (if ip = [] then ''unknown'' else ip))"

text \<open>
  The three governance calls that both handlers make, in this order, before their
  \<^verbatim>\<open>try\<close> block: a failing one throws, so the later ones do not run.
\<close>

definition admit :: "clock \<Rightarrow> string \<Rightarrow> globals \<Rightarrow> (error + unit) \<times> globals" where
  "admit clk key g =
     (case applyRateLimitOrThrow (tRate clk) key (rateState g) of
        (Inl e, rs) \<Rightarrow> (Inl e, g\<lparr>rateState := rs\<rparr>)
      | (Inr _, rs) \<Rightarrow>
          (let g = g\<lparr>rateState := rs\<rparr>
           in case applySpamGuardOrThrow (tSpam clk) key (spamState g) of
                (Inl e, ss) \<Rightarrow> (Inl e, g\<lparr>spamState := ss\<rparr>)
              | (Inr _, ss) \<Rightarrow>
                  (let g = g\<lparr>spamState := ss\<rparr>
                   in case applyBusyGuardOrThrow key (inFlight g) of
                        (Inl e, fl) \<Rightarrow> (Inl e, g\<lparr>inFlight := fl\<rparr>)
                      | (Inr _, fl) \<Rightarrow> (Inr (), g\<lparr>inFlight := fl\<rparr>))))"

text \<open>
  The responses of the buffered handler: \<^verbatim>\<open>json(400, { ok: false, error: "NO_MESSAGE" })\<close>
  and \<^verbatim>\<open>json(200, { ok: true, reply, answer: reply, cached })\<close>.
\<close>

datatype response = NoMessage | Answer string bool

text \<open>
  \<^verbatim>\<open>handleChatBuffered\<close>, on the fields that it reads from the body and the event. The
  \<^verbatim>\<open>finally\<close> block runs \<^verbatim>\<open>clearBusy\<close> after \<^verbatim>\<open>computeReply\<close> has returned or thrown, and
  only for a request that passed the three guards, which stand before the \<^verbatim>\<open>try\<close>.
\<close>

definition handleChatBuffered ::
  "clock \<Rightarrow> (error + string) \<Rightarrow> string \<Rightarrow> turn list \<Rightarrow> string \<Rightarrow> string option \<Rightarrow> string
     \<Rightarrow> globals \<Rightarrow> (error + response) \<times> globals" where
  "handleChatBuffered clk gen msg history category clientId ip g =
     (if msg = [] then (Inr NoMessage, g)
      else
        (let key = getClientKey clientId ip
         in case admit clk key g of
              (Inl e, g) \<Rightarrow> (Inl e, g)
            | (Inr _, g) \<Rightarrow>
                (let (out, g) = computeReply clk gen msg history (normalizeCategory category) g;
                     g = g\<lparr>inFlight := clearBusy key (inFlight g)\<rparr>
                 in (case out of
                       Inl e \<Rightarrow> Inl e
                     | Inr c \<Rightarrow> Inr (Answer (reply c) (cached c)), g))))"

subsection \<open>AnswerStreamer\<close>

text \<open>
  What \<^verbatim>\<open>handleChatStream\<close> writes to the response stream, one value per call of
  \<^verbatim>\<open>responseStream.write\<close>: the JSON body of the NO_MESSAGE answer; a
  \<^verbatim>\<open>data: {"delta": ...}\<close> event, with the flag of \<^verbatim>\<open>"cached": true\<close>; the
  \<^verbatim>\<open>data: {"error": "SERVER_ERROR"}\<close> event; and the terminal \<^verbatim>\<open>data: [DONE]\<close> event.
\<close>

datatype wire = NoMessageBody | Delta string bool | ServerError | Done

text \<open>
  The generation capability in streaming mode: either it throws before the first part
  (reading the menu, retrieval, opening the completion stream), or it yields the parts in
  order, each with the text of \<^verbatim>\<open>part?.choices?.[0]?.delta?.content || ""\<close>, and then ends
  or throws.
\<close>

datatype generation = SetupFails error | Stream "string list" "error option"

text \<open>What one run of the handler did to the stream, and the error it threw, if any.\<close>

record streamed =
  thrown :: "error option"
  written :: "wire list"
  ended :: bool

text \<open>
  The \<^verbatim>\<open>for await\<close> loop over the parts: an empty delta is skipped, any other one is
  appended to \<^verbatim>\<open>full\<close> and written as one event.
\<close>

fun streamLoop :: "string list \<Rightarrow> string \<times> wire list \<Rightarrow> string \<times> wire list" where
  "streamLoop [] acc = acc"
| "streamLoop (delta # parts) (full, out) =
     (if delta = [] then streamLoop parts (full, out)
      else streamLoop parts (full @ delta, out @ [Delta delta False]))"

text \<open>
  The \<^verbatim>\<open>try\<close> block of \<^verbatim>\<open>handleChatStream\<close> with its \<^verbatim>\<open>catch\<close>, which writes the error
  marker and the terminal event, ends the stream and throws the error again.
\<close>

definition streamBody ::
  "clock \<Rightarrow> generation \<Rightarrow> string \<Rightarrow> turn list \<Rightarrow> string \<Rightarrow> globals \<Rightarrow> streamed \<times> globals" where
  "streamBody clk gs msg history category g =
     (let g = g\<lparr>cache := cleanupCache (tClean clk) (cache g)\<rparr>;
          cacheKey = makeCacheKey msg history category;
          hit = (case cache g cacheKey of
                   None \<Rightarrow> None
                 | Some c \<Rightarrow> if tCheck clk - ts c < CACHE_TTL then Some c else None)
      in case hit of
           Some c \<Rightarrow>
             (\<lparr>thrown = None, written = [Delta (reply c) True, Done], ended = True\<rparr>, g)
         | None \<Rightarrow>
             (let g = g\<lparr>generations := generations g + 1\<rparr>
              in case gs of
                   SetupFails e \<Rightarrow>
                     (\<lparr>thrown = Some e, written = [ServerError, Done], ended = True\<rparr>, g)
                 | Stream parts failure \<Rightarrow>
                     (let (full, out) = streamLoop parts ([], [])
                      in case failure of
                           Some e \<Rightarrow>
                             (\<lparr>thrown = Some e, written = out @ [ServerError, Done],
                               ended = True\<rparr>, g)
                         | None \<Rightarrow>
                             (let full = trim full
                              in (\<lparr>thrown = None, written = out @ [Done], ended = True\<rparr>,
                                  g\<lparr>cache := (cache g)(cacheKey \<mapsto>
                                                  \<lparr>reply = full, ts = tStore clk\<rparr>)\<rparr>)))))"

text \<open>
  \<^verbatim>\<open>handleChatStream\<close>: an empty message is answered at once; a request that a guard
  rejects throws before anything is written; otherwise the \<^verbatim>\<open>try\<close> block runs and the
  \<^verbatim>\<open>finally\<close> block releases the key.
\<close>

definition handleChatStream ::
  "clock \<Rightarrow> generation \<Rightarrow> string \<Rightarrow> turn list \<Rightarrow> string \<Rightarrow> string option \<Rightarrow> string
     \<Rightarrow> globals \<Rightarrow> streamed \<times> globals" where
  "handleChatStream clk gs msg history category clientId ip g =
     (if msg = [] then (\<lparr>thrown = None, written = [NoMessageBody], ended = True\<rparr>, g)
      else
        (let key = getClientKey clientId ip
         in case admit clk key g of
              (Inl e, g) \<Rightarrow> (\<lparr>thrown = Some e, written = [], ended = False\<rparr>, g)
            | (Inr _, g) \<Rightarrow>
                (let (out, g) = streamBody clk gs msg history (normalizeCategory category) g;
                     g = g\<lparr>inFlight := clearBusy key (inFlight g)\<rparr>
                 in (out, g))))"

text \<open>The fragment events of a list of parts, and the property of ending in one terminal event.\<close>

definition fragments :: "string list \<Rightarrow> wire list" where
  "fragments parts = map (\<lambda>d. Delta d False) (filter (\<lambda>d. d \<noteq> []) parts)"

definition terminated :: "wire list \<Rightarrow> bool" where
  "terminated ws = (ws \<noteq> [] \<and> last ws = Done \<and> count_list ws Done = 1)"

subsection \<open>Errors, states and requests of the examples\<close>

text \<open>The error that the in-flight guard throws.\<close>

definition busyError :: error where
  "busyError = \<lparr>message = ''BUSY'', statusCode = 409, retryAfterSec = None, spam = False\<rparr>"

text \<open>A process that has seen no request yet, and the clock readings of one request.\<close>

definition freshGlobals :: globals where
  "freshGlobals = \<lparr>rateState = Map.empty, spamState = Map.empty, inFlight = Map.empty,
                    cache = Map.empty, generations = 0\<rparr>"

definition clockAt :: "int \<Rightarrow> clock" where
  "clockAt t = \<lparr>tRate = t, tSpam = t, tClean = t, tCheck = t, tStore = t + 900\<rparr>"

text \<open>A process whose cache holds one answer, stored at time 1000.\<close>

definition cachedGlobals :: globals where
  "cachedGlobals = freshGlobals\<lparr>cache := [''auto::hello::'' \<mapsto> \<lparr>reply = ''Szia!'', ts = 1000\<rparr>]\<rparr>"

text \<open>
  Two requests that differ only beyond what the cache key reads: the messages in their
  601st character, the histories in a fifth-last turn and in the 141st character of the
  last turn, the categories in two names that are both unknown.
\<close>

definition longMessage :: "char \<Rightarrow> string" where
  "longMessage c = replicate 600 CHR ''a'' @ [c]"

definition longHistory :: "string \<Rightarrow> char \<Rightarrow> turn list" where
  "longHistory old c =
     [\<lparr>role = ''user'', content = old\<rparr>,
      \<lparr>role = ''assistant'', content = ''Szia!''\<rparr>,
      \<lparr>role = ''user'', content = ''menu?''\<rparr>,
      \<lparr>role = ''assistant'', content = ''Igen.''\<rparr>,
      \<lparr>role = ''user'', content = replicate 140 CHR ''b'' @ [c]\<rparr>]"

text \<open>A client that has used its twelve requests in the window that began at time 1000.\<close>

definition rateState_full :: "string \<rightharpoonup> rateSt" where
  "rateState_full = [''cid:abcdefgh'' \<mapsto> \<lparr>windowStart = 1000, count = 12, resetAt = 61000\<rparr>]"

text \<open>An error of the generation capability, as the router reports it.\<close>

definition upstreamError :: error where
  "upstreamError = \<lparr>message = ''fetch failed'', statusCode = 500, retryAfterSec = None,
                     spam = False\<rparr>"

subsection \<open>CorpusIndexer: chunking a section\<close>

definition LF :: char where "LF = CHR 0x0A"
definition CR :: char where "CR = CHR 0x0D"

text \<open>
  \<^verbatim>\<open>text.split(/\r?\n/)\<close>: a line feed, together with a carriage return right before it,
  separates two lines; the empty text has one empty line.
\<close>

fun splitLines :: "string \<Rightarrow> string list" where
  "splitLines [] = [[]]"
| "splitLines [c] = (if c = LF then [[], []] else [[c]])"
| "splitLines (c # d # cs) =
     (if c = LF then [] # splitLines (d # cs)
      else if c = CR \<and> d = LF then [] # splitLines cs
      else (case splitLines (d # cs) of
              [] \<Rightarrow> [[c]]
            | l # ls \<Rightarrow> (c # l) # ls))"

text \<open>
  The loop of \<^verbatim>\<open>chunkSection\<close> over the lines, with the buffer and the chunks pushed so
  far. A buffer is falsy when it is the empty string; \<open>nextBuf\<close> is the constant
  \<^verbatim>\<open>next\<close> of the loop body.
\<close>

definition nextBuf :: "string \<Rightarrow> string \<Rightarrow> string" where
  "nextBuf buf line = (if buf \<noteq> [] then buf @ [LF] @ line else line)"

fun chunkLoop :: "string list \<Rightarrow> string \<Rightarrow> string list \<Rightarrow> string \<times> string list" where
  "chunkLoop [] buf chunks = (buf, chunks)"
| "chunkLoop (line # lines) buf chunks =
     (if length (nextBuf buf line) > MAX_EMBED_CHUNK_CHARS \<and> buf \<noteq> []
      then chunkLoop lines line (chunks @ [trim buf])
      else chunkLoop lines (nextBuf buf line) chunks)"

text \<open>The texts of the chunks, before they get their identifiers.\<close>

definition chunkTexts :: "string \<Rightarrow> string list" where
  "chunkTexts txt =
     (let (buf, chunks) = chunkLoop (splitLines txt) [] []
      in if trim buf \<noteq> [] then chunks @ [trim buf] else chunks)"

text \<open>The decimal numeral that a template literal gives for a natural number.\<close>

fun showNat :: "nat \<Rightarrow> string" where
  "showNat n =
     (if n < 10 then [''0123456789'' ! n]
      else showNat (n div 10) @ [''0123456789'' ! (n mod 10)])"

declare showNat.simps [simp del]

text \<open>A chunk \<^verbatim>\<open>{ id, key, text }\<close>.\<close>

record chunk =
  chunk_id :: string
  chunk_key :: string
  chunk_text :: string

definition chunkSection :: "string \<Rightarrow> string \<Rightarrow> chunk list" where
  "chunkSection key txt =
     map (\<lambda>(i, c). \<lparr>chunk_id = key @ '':'' @ showNat (i + 1), chunk_key = key, chunk_text = c\<rparr>)
       (enumerate 0 (chunkTexts txt))"

text \<open>A line that is not empty and neither begins nor ends with white space.\<close>

definition tightLine :: "string \<Rightarrow> bool" where
  "tightLine l = (l \<noteq> [] \<and> \<not> isWhiteSpace (hd l) \<and> \<not> isWhiteSpace (last l))"

text \<open>The characters of a text that are not white space.\<close>

definition ink :: "string \<Rightarrow> string" where
  "ink s = filter (\<lambda>c. \<not> isWhiteSpace c) s"

text \<open>
  A section of two lines, separated by carriage return and line feed, whose first line is
  one character longer than the budget of a chunk; and a section of two lines within the
  budget that do not fit into one chunk together.
\<close>

definition oversizedSection :: string where
  "oversizedSection = replicate 1401 CHR ''a'' @ [CR, LF] @ ''b''"

definition twoChunkSection :: string where
  "twoChunkSection = replicate 1400 CHR ''a'' @ [LF] @ ''b''"

text \<open>
  A chunk text that respects the budget, or else is one of the given lines, trimmed, that
  exceeds the budget itself.
\<close>

definition capped :: "string set \<Rightarrow> string \<Rightarrow> bool" where
  "capped L c =
     (length c \<le> MAX_EMBED_CHUNK_CHARS \<or>
      (\<exists>l \<in> L. MAX_EMBED_CHUNK_CHARS < length l \<and> c = trim l))"

subsection \<open>Numbers\<close>

text \<open>
  The entries of an embedding vector, the accumulators of \<^verbatim>\<open>cosineSimilarity\<close> and the
  scores are JavaScript numbers, that is values of the binary64 format of IEEE 754: not a
  number, the two infinities, and the finite numbers, each a sign (\<open>True\<close> for minus) and a
  magnitude, so that there are two zeros. Every arithmetic operation returns the exact
  result rounded to the nearest number of the format, a tie going to the number with the
  even significand.

  \<open>roundEven\<close> rounds a real to the nearest integer, a tie to the even one. \<open>ulp m\<close> is the
  spacing of the format at the magnitude \<open>m\<close>: 52 binary places below the leading digit
  of \<open>m\<close>, and \<open>2 powi (- 1074)\<close> for all magnitudes below \<open>2 powi (- 1022)\<close>, the subnormal ones.
  \<open>roundMagnitude m\<close> is the multiple of that spacing nearest to \<open>m\<close>, and \<open>rounded s m\<close>
  the number with sign \<open>s\<close> that an operation with the exact result of magnitude \<open>m\<close>
  returns: an infinity when the rounded magnitude is \<open>2 ^ 1024\<close> or more.
\<close>

datatype double = NaN | Infinity bool | Number bool real

definition roundEven :: "real \<Rightarrow> int" where
  "roundEven y =
     (if y - of_int \<lfloor>y\<rfloor> < 1 / 2 then \<lfloor>y\<rfloor>
      else if 1 / 2 < y - of_int \<lfloor>y\<rfloor> then \<lfloor>y\<rfloor> + 1
      else if even \<lfloor>y\<rfloor> then \<lfloor>y\<rfloor> else \<lfloor>y\<rfloor> + 1)"

definition ulp :: "real \<Rightarrow> real" where
  "ulp m = 2 powi (max \<lfloor>log 2 m\<rfloor> (- 1022) - 52)"

definition roundMagnitude :: "real \<Rightarrow> real" where
  "roundMagnitude m = (if m = 0 then 0 else of_int (roundEven (m / ulp m)) * ulp m)"

definition huge :: real where
  "huge = 2 ^ 1024"

definition rounded :: "bool \<Rightarrow> real \<Rightarrow> double" where
  "rounded s m = (if huge \<le> roundMagnitude m then Infinity s else Number s (roundMagnitude m))"

text \<open>
  The value of a number as a real; an infinity counts as plus or minus \<open>2 ^ 1024\<close>, beyond every finite
  number.
\<close>

fun val :: "double \<Rightarrow> real" where
  "val (Number s m) = (if s then - m else m)"
| "val (Infinity s) = (if s then - huge else huge)"
| "val NaN = 0"

text \<open>
  The operators \<^verbatim>\<open>*\<close>, \<^verbatim>\<open>+\<close>, unary and binary \<^verbatim>\<open>-\<close> and \<^verbatim>\<open>/\<close> on numbers, with the
  special cases of the standard: zero times infinity, the difference of equal infinities,
  zero by zero and infinity by infinity are not a number; a nonzero number by zero is an
  infinity; a sum that is exactly zero is \<open>-0\<close> only when both operands are \<open>-0\<close>.
\<close>

fun mul_d :: "double \<Rightarrow> double \<Rightarrow> double" where
  "mul_d (Number s m) (Number t n) = rounded (s \<noteq> t) (m * n)"
| "mul_d (Number s m) (Infinity t) = (if m = 0 then NaN else Infinity (s \<noteq> t))"
| "mul_d (Infinity s) (Number t n) = (if n = 0 then NaN else Infinity (s \<noteq> t))"
| "mul_d (Infinity s) (Infinity t) = Infinity (s \<noteq> t)"
| "mul_d _ _ = NaN"

fun add_d :: "double \<Rightarrow> double \<Rightarrow> double" where
  "add_d (Number s m) (Number t n) =
     (if val (Number s m) + val (Number t n) = 0 then Number (s \<and> t) 0
      else rounded (val (Number s m) + val (Number t n) < 0)
             \<bar>val (Number s m) + val (Number t n)\<bar>)"
| "add_d (Number s m) (Infinity t) = Infinity t"
| "add_d (Infinity s) (Number t n) = Infinity s"
| "add_d (Infinity s) (Infinity t) = (if s = t then Infinity s else NaN)"
| "add_d _ _ = NaN"

fun neg_d :: "double \<Rightarrow> double" where
  "neg_d (Number s m) = Number (\<not> s) m"
| "neg_d (Infinity s) = Infinity (\<not> s)"
| "neg_d NaN = NaN"

definition sub_d :: "double \<Rightarrow> double \<Rightarrow> double" where
  "sub_d x y = add_d x (neg_d y)"

fun div_d :: "double \<Rightarrow> double \<Rightarrow> double" where
  "div_d (Number s m) (Number t n) =
     (if n = 0 then (if m = 0 then NaN else Infinity (s \<noteq> t))
      else rounded (s \<noteq> t) (m / n))"
| "div_d (Number s m) (Infinity t) = Number (s \<noteq> t) 0"
| "div_d (Infinity s) (Number t n) = Infinity (s \<noteq> t)"
| "div_d _ _ = NaN"

text \<open>
  \<^verbatim>\<open>Math.sqrt\<close>, as the engine computes it: the correctly rounded square root, a zero for
  a zero of either sign, not a number below zero.
\<close>

fun sqrt_d :: "double \<Rightarrow> double" where
  "sqrt_d (Number s m) =
     (if m = 0 then Number s 0 else if s then NaN else rounded False (sqrt m))"
| "sqrt_d (Infinity s) = (if s then NaN else Infinity False)"
| "sqrt_d NaN = NaN"

text \<open>
  A number is falsy when it is a zero or not a number. \<open>greater x y\<close> is \<^verbatim>\<open>x > y\<close>, false
  whenever an operand is not a number. \<open>positive v\<close> is \<^verbatim>\<open>v > 0\<close>.
\<close>

fun falsy :: "double \<Rightarrow> bool" where
  "falsy (Number s m) = (m = 0)"
| "falsy (Infinity s) = False"
| "falsy NaN = True"

fun greater :: "double \<Rightarrow> double \<Rightarrow> bool" where
  "greater (Number s m) (Number t n) = (val (Number t n) < val (Number s m))"
| "greater (Number s m) (Infinity t) = t"
| "greater (Infinity s) (Number t n) = (\<not> s)"
| "greater (Infinity s) (Infinity t) = (\<not> s \<and> t)"
| "greater _ _ = False"

definition positive :: "double \<Rightarrow> bool" where
  "positive v = greater v (Number False 0)"

text \<open>
  The number of an integer literal; exact for the integers of magnitude below \<open>2 ^ 53\<close>.
\<close>

definition ofInt :: "int \<Rightarrow> double" where
  "ofInt n = Number (n < 0) \<bar>of_int n\<bar>"

text \<open>
  Two properties for the proofs. Every finite number of the format is a multiple of
  \<open>2 powi (- 1074)\<close>, and what the operations return has a magnitude that is not negative, below
  \<open>2 ^ 1024\<close> and such a multiple.
\<close>

definition onGrid :: "real \<Rightarrow> bool" where
  "onGrid m = (\<exists>k::int. m = of_int k * 2 powi (- 1074))"

fun nonnegMag :: "double \<Rightarrow> bool" where
  "nonnegMag (Number s m) = (0 \<le> m)"
| "nonnegMag _ = True"

fun proper :: "double \<Rightarrow> bool" where
  "proper (Number s m) = (0 \<le> m \<and> m < huge \<and> onGrid m)"
| "proper _ = True"

subsection \<open>Retriever and ContextAssembler\<close>

text \<open>
  An embedding vector is an array of numbers. \<^verbatim>\<open>a[i]\<close> beyond the end of an array is
  \<^verbatim>\<open>undefined\<close>, which is not a number in a product. The loop of \<^verbatim>\<open>cosineSimilarity\<close>
  runs over the indices of \<open>a\<close> and updates the three accumulators, each update a rounded
  product and a rounded sum.
\<close>

type_synonym vec = "double list"

definition item :: "vec \<Rightarrow> nat \<Rightarrow> double" where
  "item a i = (if i < length a then a ! i else NaN)"

fun cosLoop :: "vec \<Rightarrow> vec \<Rightarrow> nat list \<Rightarrow> double \<times> double \<times> double \<Rightarrow> double \<times> double \<times> double" where
  "cosLoop a b [] acc = acc"
| "cosLoop a b (i # js) (dot, normA, normB) =
     cosLoop a b js
       (add_d dot (mul_d (item a i) (item b i)),
        add_d normA (mul_d (item a i) (item a i)),
        add_d normB (mul_d (item b i) (item b i)))"

text \<open>\<^verbatim>\<open>x || 1\<close> on a number.\<close>

definition orOne :: "double \<Rightarrow> double" where
  "orOne x = (if falsy x then Number False 1 else x)"

text \<open>\<^verbatim>\<open>dot / (Math.sqrt(normA) * Math.sqrt(normB) || 1)\<close>\<close>

definition cosineSimilarity :: "vec \<Rightarrow> vec \<Rightarrow> double" where
  "cosineSimilarity a b =
     (case cosLoop a b [0..<length a] (Number False 0, Number False 0, Number False 0) of
        (dot, normA, normB) \<Rightarrow> div_d dot (orOne (mul_d (sqrt_d normA) (sqrt_d normB))))"

record scoredIdx =
  idx :: nat
  score :: double

text \<open>
  \<^verbatim>\<open>scored.sort((a, b) => b.score - a.score)\<close>. The sort of an array is stable, and it
  puts \<open>a\<close> behind \<open>b\<close> when the comparator returns a number above zero for them; a result
  that is not a number counts as zero. For a comparator that orders the elements
  consistently this fixes the result, which is that of the insertion sort \<open>sortBy\<close>;
  when a score is not a number the comparator is not consistent and the engine may order
  the array otherwise, so the theorems about \<open>ranked\<close> assume that the scores are numbers.
\<close>

definition compareScores :: "scoredIdx \<Rightarrow> scoredIdx \<Rightarrow> double" where
  "compareScores a b = sub_d (score b) (score a)"

fun insertBy :: "('a \<Rightarrow> 'a \<Rightarrow> double) \<Rightarrow> 'a \<Rightarrow> 'a list \<Rightarrow> 'a list" where
  "insertBy cmp x [] = [x]"
| "insertBy cmp x (y # ys) =
     (if positive (cmp x y) then y # insertBy cmp x ys else x # y # ys)"

definition sortBy :: "('a \<Rightarrow> 'a \<Rightarrow> double) \<Rightarrow> 'a list \<Rightarrow> 'a list" where
  "sortBy cmp xs = foldr (insertBy cmp) xs []"

text \<open>
  \<^verbatim>\<open>embeddings.map((vec, i) => ({ idx: i, score: cosineSimilarity(queryEmbedding, vec) }))\<close>
  and its sort.
\<close>

definition scoreAll :: "vec \<Rightarrow> vec list \<Rightarrow> scoredIdx list" where
  "scoreAll queryEmbedding embeddings =
     map (\<lambda>(i, v). \<lparr>idx = i, score = cosineSimilarity queryEmbedding v\<rparr>) (enumerate 0 embeddings)"

definition ranked :: "vec \<Rightarrow> vec list \<Rightarrow> scoredIdx list" where
  "ranked queryEmbedding embeddings = sortBy compareScores (scoreAll queryEmbedding embeddings)"

text \<open>
  \<^verbatim>\<open>detectIntent\<close>, over the four intents in their order and their prototype vectors: the
  best so far, at first general with score \<open>-1\<close>, is replaced only by a strictly greater
  score.
\<close>

definition intentKeys :: "string list" where
  "intentKeys = [''recommendation'', ''cheapest'', ''comparison'', ''general'']"

fun detectLoop :: "vec \<Rightarrow> (string \<times> vec) list \<Rightarrow> string \<times> double \<Rightarrow> string \<times> double" where
  "detectLoop q [] best = best"
| "detectLoop q ((k, e) # rest) best =
     detectLoop q rest
       (if greater (cosineSimilarity q e) (snd best) then (k, cosineSimilarity q e) else best)"

definition detectIntent :: "vec \<Rightarrow> vec list \<Rightarrow> string \<times> double" where
  "detectIntent queryEmbedding intentEmbeddings =
     detectLoop queryEmbedding (zip intentKeys intentEmbeddings) (''general'', Number True 1)"

definition topKFor :: "string \<Rightarrow> nat" where
  "topKFor key =
     (if key = ''cheapest'' \<or> key = ''comparison'' then RETRIEVAL_TOP_K_BROAD
      else RETRIEVAL_TOP_K_DEFAULT)"

text \<open>\<^verbatim>\<open>scored.slice(0, topK).map((s) => chunks[s.idx])\<close>\<close>

definition selectedChunks :: "chunk list \<Rightarrow> vec list \<Rightarrow> vec \<Rightarrow> nat \<Rightarrow> chunk list" where
  "selectedChunks chunks embeddings queryEmbedding topK =
     map (\<lambda>s. chunks ! idx s) (take topK (ranked queryEmbedding embeddings))"

text \<open>\<^verbatim>\<open>chunks.filter((c) => c.key === k).slice(0, 1)\<close>\<close>

definition firstWithKey :: "string \<Rightarrow> chunk list \<Rightarrow> chunk list" where
  "firstWithKey k chunks = take 1 (filter (\<lambda>c. chunk_key c = k) chunks)"

text \<open>
  The \<^verbatim>\<open>Map\<close> called \<^verbatim>\<open>unique\<close>: a chunk is entered unless its id is there already, and
  the values come out in the order of their entry. \<open>seen\<close> holds the ids entered so far.
\<close>

fun uniqueById :: "string list \<Rightarrow> chunk list \<Rightarrow> chunk list" where
  "uniqueById seen [] = []"
| "uniqueById seen (c # cs) =
     (if chunk_id c \<in> set seen then uniqueById seen cs
      else c # uniqueById (chunk_id c # seen) cs)"

definition contextChunks :: "chunk list \<Rightarrow> vec list \<Rightarrow> vec \<Rightarrow> nat \<Rightarrow> chunk list" where
  "contextChunks chunks embeddings queryEmbedding topK =
     uniqueById []
       (firstWithKey ''intro'' chunks @ firstWithKey ''footer'' chunks @
        selectedChunks chunks embeddings queryEmbedding topK)"

text \<open>
  \<^verbatim>\<open>toUpperCase()\<close> on the letters a to z; the section keys are words of these letters.
\<close>

definition upperChar :: "char \<Rightarrow> char" where
  "upperChar c =
     (case map_of (zip ''abcdefghijklmnopqrstuvwxyz'' ''ABCDEFGHIJKLMNOPQRSTUVWXYZ'') c of
        Some u \<Rightarrow> u
      | None \<Rightarrow> c)"

definition toUpperCase :: "string \<Rightarrow> string" where
  "toUpperCase s = map upperChar s"

text \<open>The labelled block of a chunk: \<^verbatim>\<open>### KEY (id)\<close>, a line feed, the text.\<close>

definition block :: "chunk \<Rightarrow> string" where
  "block c = ''### '' @ toUpperCase (chunk_key c) @ '' ('' @ chunk_id c @ '')'' @ [LF] @ chunk_text c"

record retrieval =
  menuContext :: string
  intent :: string

text \<open>
  \<^verbatim>\<open>buildMenuContextForQuery\<close>, after its calls of the embedding capability: on the
  chunks and their vectors, the vector of the query and the vectors of the intents.
\<close>

definition buildMenuContextForQuery ::
  "chunk list \<Rightarrow> vec list \<Rightarrow> vec \<Rightarrow> vec list \<Rightarrow> retrieval" where
  "buildMenuContextForQuery chunks embeddings queryEmbedding intentEmbeddings =
     (let best = detectIntent queryEmbedding intentEmbeddings;
          topK = topKFor (fst best);
          unique = contextChunks chunks embeddings queryEmbedding topK
      in \<lparr>menuContext = take MAX_MENU_CHUNK (join [LF, LF] (map block unique)),
          intent = fst best\<rparr>)"

text \<open>
  The dot product in the words of the specification, as double arithmetic computes it: the
  products of the paired entries, each rounded, summed from the left with every sum rounded.
\<close>

definition dotProduct :: "vec \<Rightarrow> vec \<Rightarrow> double" where
  "dotProduct a b = foldl (\<lambda>acc (x, y). add_d acc (mul_d x y)) (Number False 0) (zip a b)"

text \<open>
  A corpus of six chunks with vectors in the plane, a query that points along the first
  axis, and intent prototypes of which the last one, general, is nearest to the query.
\<close>

definition menuChunks :: "chunk list" where
  "menuChunks =
     [\<lparr>chunk_id = ''intro:1'', chunk_key = ''intro'', chunk_text = ''Turkiz''\<rparr>,
      \<lparr>chunk_id = ''meze:1'', chunk_key = ''meze'', chunk_text = ''Hummus 1200''\<rparr>,
      \<lparr>chunk_id = ''soups:1'', chunk_key = ''soups'', chunk_text = ''Mercimek 1500''\<rparr>,
      \<lparr>chunk_id = ''desserts:1'', chunk_key = ''desserts'', chunk_text = ''Baklava 1800''\<rparr>,
      \<lparr>chunk_id = ''drinks:1'', chunk_key = ''drinks'', chunk_text = ''Ayran 600''\<rparr>,
      \<lparr>chunk_id = ''footer:1'', chunk_key = ''footer'', chunk_text = ''Az arak''\<rparr>]"

definition menuVectors :: "vec list" where
  "menuVectors = map (map ofInt) [[0, 1], [1, 0], [0, - 1], [- 1, 0], [1, 0], [- 1, 0]]"

definition intentVectors :: "vec list" where
  "intentVectors = map (map ofInt) [[0, 1], [0, - 1], [- 1, 0], [1, 0]]"

section \<open>Theorems\<close>

lemmas gov_consts =
  CACHE_TTL_def RL_WINDOW_MS_def RL_LIMIT_def SPAM_WINDOW_MS_def SPAM_LIMIT_def
  SPAM_BLOCK_MS_def MIN_INTERVAL_MS_def

lemma retrySeconds_ceiling: "retrySeconds ms = max 1 \<lceil>real_of_int ms / 1000\<rceil>"
proof -
  have "\<lceil>real_of_int ms / real_of_int 1000\<rceil> = - ((- ms) div 1000)"
    by (rule ceiling_divide_eq_div)
  then show ?thesis by (simp add: retrySeconds_def)
qed

lemma retrySeconds_ge_1: "1 \<le> retrySeconds ms"
  by (simp add: retrySeconds_def)

subsection \<open>RateLimiter\<close>

text \<open>
  Claim C2. One call of the rate limiter for a client key, started from the stored state
  (or a fresh window when there is none): the window is reset when more than
  \<open>RL_WINDOW_MS\<close> have passed since \<open>windowStart\<close>, the count that is stored is one more
  than before in every case, also when the call fails, and the call fails exactly when the
  stored count exceeds \<open>RL_LIMIT\<close>, with message RATE_LIMIT, status 429 and a retry-after
  of the ceiling of the milliseconds until \<open>resetAt\<close> over 1000, at least 1.
\<close>

theorem rate_limiter_window_count_retry:
  assumes "st0 = rateGet now key rs"
    and "applyRateLimitOrThrow now key rs = (r, rs')"
  shows "\<exists>st'. rs' = rs(key \<mapsto> st') \<and>
      (if now - windowStart st0 > RL_WINDOW_MS
       then windowStart st' = now \<and> resetAt st' = now + RL_WINDOW_MS \<and> count st' = 1
       else windowStart st' = windowStart st0 \<and> resetAt st' = resetAt st0 \<and>
            count st' = count st0 + 1) \<and>
      (if count st' > RL_LIMIT
       then r = Inl \<lparr>message = ''RATE_LIMIT'', statusCode = 429,
                      retryAfterSec = Some (max 1 \<lceil>real_of_int (resetAt st' - now) / 1000\<rceil>),
                      spam = False\<rparr>
       else r = Inr ())"
proof -
  let ?s1 = "if now - windowStart st0 > RL_WINDOW_MS
             then st0\<lparr>windowStart := now, count := 0, resetAt := now + RL_WINDOW_MS\<rparr>
             else st0"
  let ?st' = "?s1\<lparr>count := count ?s1 + 1\<rparr>"
  have run: "applyRateLimitOrThrow now key rs =
      (if count ?st' > RL_LIMIT
       then Inl \<lparr>message = ''RATE_LIMIT'', statusCode = 429,
                  retryAfterSec = Some (retrySeconds (resetAt ?st' - now)), spam = False\<rparr>
       else Inr (), rs(key \<mapsto> ?st'))"
    unfolding applyRateLimitOrThrow_def Let_def assms(1) by (simp split: if_splits)
  from run assms(2) have rs': "rs' = rs(key \<mapsto> ?st')"
    by (simp split: if_splits)
  from run assms(2) have r: "r = (if count ?st' > RL_LIMIT
       then Inl \<lparr>message = ''RATE_LIMIT'', statusCode = 429,
                  retryAfterSec = Some (retrySeconds (resetAt ?st' - now)), spam = False\<rparr>
       else Inr ())"
    by (simp split: if_splits)
  show ?thesis
    apply (rule exI [of _ ?st'])
    apply (intro conjI)
      apply (rule rs')
     apply simp
    using r apply (simp add: retrySeconds_ceiling split: if_splits)
    done
qed

theorem rate_limiter_window_count_retry_witness:
  "\<exists>st'. snd (applyRateLimitOrThrow 2500 ''cid:abcdefgh'' rateState_full) = rateState_full(''cid:abcdefgh'' \<mapsto> st') \<and>
     windowStart st' = 1000 \<and> resetAt st' = 61000 \<and> count st' = 13 \<and>
     fst (applyRateLimitOrThrow 2500 ''cid:abcdefgh'' rateState_full) =
       Inl \<lparr>message = ''RATE_LIMIT'', statusCode = 429, retryAfterSec = Some 59, spam = False\<rparr>"
  using rate_limiter_window_count_retry [OF refl surjective_pairing, of 2500 "''cid:abcdefgh''" rateState_full]
  by (auto simp: rateGet_def rateState_full_def gov_consts)

text \<open>
  The limiter over several calls: while the calls stay inside the window, the call number
  \<open>i\<close> (from 0) fails exactly when the count before the calls plus \<open>i + 1\<close> exceeds the cap.
\<close>

lemma rateCalls_within_window:
  assumes "rs key = Some st"
    and "\<forall>t \<in> set tms. t - windowStart st \<le> RL_WINDOW_MS"
    and "i < length tms"
  shows "fst (rateCalls key tms rs) ! i =
     (if count st + int i + 1 > RL_LIMIT
      then Inl \<lparr>message = ''RATE_LIMIT'', statusCode = 429,
                 retryAfterSec = Some (retrySeconds (resetAt st - tms ! i)), spam = False\<rparr>
      else Inr ())"
  using assms
proof (induction tms arbitrary: rs st i)
  case Nil
  then show ?case by simp
next
  case (Cons t tms)
  let ?st' = "st\<lparr>count := count st + 1\<rparr>"
  have step: "applyRateLimitOrThrow t key rs =
     (if count st + 1 > RL_LIMIT
      then Inl \<lparr>message = ''RATE_LIMIT'', statusCode = 429,
                 retryAfterSec = Some (retrySeconds (resetAt st - t)), spam = False\<rparr>
      else Inr (), rs(key \<mapsto> ?st'))"
    using Cons.prems(1,2) by (simp add: applyRateLimitOrThrow_def rateGet_def Let_def)
  show ?case
  proof (cases i)
    case 0
    then show ?thesis using step by (simp add: split_beta)
  next
    case (Suc j)
    have "fst (rateCalls key tms (rs(key \<mapsto> ?st'))) ! j =
       (if count ?st' + int j + 1 > RL_LIMIT
        then Inl \<lparr>message = ''RATE_LIMIT'', statusCode = 429,
                 retryAfterSec = Some (retrySeconds (resetAt ?st' - tms ! j)), spam = False\<rparr>
        else Inr ())"
      using Cons.prems Suc by (intro Cons.IH) auto
    then show ?thesis using step Suc by (simp add: split_beta add.commute add.left_commute)
  qed
qed

subsection \<open>SpamGuard\<close>

text \<open>
  While a block is active, a call fails COOLDOWN and returns the map it was given: nothing
  of the spam state is written, the window counter included.
\<close>

lemma cooldown_call:
  assumes "ss key = Some st" and "blockedUntil st \<noteq> 0" and "t < blockedUntil st"
  shows "applySpamGuardOrThrow t key ss = (Inl (cooldownError (blockedUntil st) t), ss)"
  using assms
  by (simp add: applySpamGuardOrThrow_def spamGet_def cooldownError_def cooldownSeconds_def
      retrySeconds_ceiling)

lemma cooldown_calls:
  assumes "ss key = Some st" and "blockedUntil st \<noteq> 0" and "\<forall>t \<in> set tms. t < blockedUntil st"
  shows "spamCalls key tms ss = (map (\<lambda>t. Inl (cooldownError (blockedUntil st) t)) tms, ss)"
  using assms
  by (induction tms) (simp_all add: cooldown_call)

text \<open>
  Claim C3. A call that reaches the window tier (no block active, not too fast) with the
  cap already used up in the current window fails SPAM_WINDOW with status 429 and a
  retry-after of the block duration in seconds, and stores \<open>blockedUntil = now +
  SPAM_BLOCK_MS\<close>. Every later call for the key at a time before \<open>blockedUntil\<close> fails
  COOLDOWN with the seconds that remain (ceiling, at least 1), and after any number of such
  calls the spam state is the one the blocking call left: the counter is not incremented.
  Times are those of \<^verbatim>\<open>Date.now()\<close>, which are not negative.
\<close>

theorem spam_window_block:
  assumes st0: "st0 = spamGet now key ss"
    and now: "0 \<le> now"
    and nocool: "\<not> (blockedUntil st0 \<noteq> 0 \<and> now < blockedUntil st0)"
    and notfast: "\<not> (lastAt st0 \<noteq> 0 \<and> now - lastAt st0 < MIN_INTERVAL_MS)"
    and window: "now - windowStart st0 \<le> SPAM_WINDOW_MS"
    and cap: "SPAM_LIMIT \<le> count st0"
    and run: "applySpamGuardOrThrow now key ss = (r, ss1)"
    and later: "\<forall>t \<in> set tms. t < now + SPAM_BLOCK_MS"
  shows "r = Inl \<lparr>message = ''SPAM_WINDOW'', statusCode = 429,
                   retryAfterSec = Some (SPAM_BLOCK_MS div 1000), spam = True\<rparr> \<and>
         ss1 = ss(key \<mapsto> st0\<lparr>count := count st0 + 1, lastAt := now,
                                blockedUntil := now + SPAM_BLOCK_MS\<rparr>) \<and>
         spamCalls key tms ss1 = (map (\<lambda>t. Inl (cooldownError (now + SPAM_BLOCK_MS) t)) tms, ss1)"
proof -
  let ?st1 = "st0\<lparr>count := count st0 + 1, lastAt := now, blockedUntil := now + SPAM_BLOCK_MS\<rparr>"
  have step: "applySpamGuardOrThrow now key ss =
      (Inl \<lparr>message = ''SPAM_WINDOW'', statusCode = 429,
            retryAfterSec = Some (SPAM_BLOCK_MS div 1000), spam = True\<rparr>, ss(key \<mapsto> ?st1))"
    using nocool notfast window cap
    unfolding applySpamGuardOrThrow_def Let_def st0 [symmetric]
    by (simp add: retrySeconds_def SPAM_BLOCK_MS_def)
  from step run have r: "r = Inl \<lparr>message = ''SPAM_WINDOW'', statusCode = 429,
                   retryAfterSec = Some (SPAM_BLOCK_MS div 1000), spam = True\<rparr>"
    and ss1: "ss1 = ss(key \<mapsto> ?st1)" by simp_all
  have "ss1 key = Some ?st1" by (simp add: ss1)
  moreover have "blockedUntil ?st1 \<noteq> 0" using now by (simp add: SPAM_BLOCK_MS_def)
  moreover have "\<forall>t \<in> set tms. t < blockedUntil ?st1" using later by simp
  ultimately have "spamCalls key tms ss1 =
      (map (\<lambda>t. Inl (cooldownError (blockedUntil ?st1) t)) tms, ss1)"
    by (rule cooldown_calls)
  with r ss1 show ?thesis by simp
qed

theorem spam_window_block_witness:
  "applySpamGuardOrThrow 50700 ''cid:abcdefgh'' spamState_full =
     (Inl \<lparr>message = ''SPAM_WINDOW'', statusCode = 429, retryAfterSec = Some 180, spam = True\<rparr>,
      [''cid:abcdefgh'' \<mapsto> \<lparr>windowStart = 1000, count = 31, blockedUntil = 230700, lastAt = 50700\<rparr>]) \<and>
   spamCalls ''cid:abcdefgh'' [50701, 60000, 230699]
       [''cid:abcdefgh'' \<mapsto> \<lparr>windowStart = 1000, count = 31, blockedUntil = 230700, lastAt = 50700\<rparr>] =
     ([Inl \<lparr>message = ''COOLDOWN'', statusCode = 429, retryAfterSec = Some 180, spam = True\<rparr>,
       Inl \<lparr>message = ''COOLDOWN'', statusCode = 429, retryAfterSec = Some 171, spam = True\<rparr>,
       Inl \<lparr>message = ''COOLDOWN'', statusCode = 429, retryAfterSec = Some 1, spam = True\<rparr>],
      [''cid:abcdefgh'' \<mapsto> \<lparr>windowStart = 1000, count = 31, blockedUntil = 230700, lastAt = 50700\<rparr>])"
proof -
  let ?s1 = "[''cid:abcdefgh'' \<mapsto>
               \<lparr>windowStart = 1000, count = 31, blockedUntil = 230700, lastAt = 50700\<rparr>]"
  have run: "applySpamGuardOrThrow 50700 ''cid:abcdefgh'' spamState_full =
     (Inl \<lparr>message = ''SPAM_WINDOW'', statusCode = 429, retryAfterSec = Some 180, spam = True\<rparr>,
      ?s1)"
    by (simp add: applySpamGuardOrThrow_def spamGet_def spamState_full_def gov_consts
        retrySeconds_def)
  from spam_window_block [OF refl _ _ _ _ _ run, of "[50701, 60000, 230699]"]
  have "spamCalls ''cid:abcdefgh'' [50701, 60000, 230699] ?s1 =
     (map (\<lambda>t. Inl (cooldownError (50700 + SPAM_BLOCK_MS) t)) [50701, 60000, 230699], ?s1)"
    by (simp add: spamGet_def spamState_full_def gov_consts)
  then show ?thesis using run by (simp add: cooldownError_def cooldownSeconds_def gov_consts)
qed

lemma cooldownSeconds_retry: "cooldownSeconds until t = retrySeconds (until - t)"
  by (simp add: cooldownSeconds_def retrySeconds_ceiling)

lemma cooldownSeconds_mono: "t \<le> t' \<Longrightarrow> cooldownSeconds until t' \<le> cooldownSeconds until t"
  unfolding cooldownSeconds_retry retrySeconds_def by (simp add: zdiv_mono1 max.coboundedI2)

lemma cooldownSeconds_strict:
  assumes "t + 1000 \<le> t'" and "t' < until"
  shows "cooldownSeconds until t' < cooldownSeconds until t"
  using assms unfolding cooldownSeconds_retry retrySeconds_def by simp

text \<open>
  Claim C4. With no block active, a call for a key whose previous recorded request
  (\<open>lastAt\<close>) is less than \<open>MIN_INTERVAL_MS\<close> ago fails TOO_FAST with status 429 and a
  retry-after of 3 seconds, and stores \<open>blockedUntil = now + 3000\<close>, leaving the rest of the
  state as it was. A further call at any time before \<open>now + 3000\<close> fails COOLDOWN, changes
  nothing, and carries the seconds that remain: a number that never grows with time and
  that is strictly smaller after each full second.
\<close>

theorem too_fast_then_cooldown:
  assumes st0: "st0 = spamGet now key ss"
    and now: "0 \<le> now"
    and nocool: "\<not> (blockedUntil st0 \<noteq> 0 \<and> now < blockedUntil st0)"
    and prev: "lastAt st0 \<noteq> 0"
    and fast: "now - lastAt st0 < MIN_INTERVAL_MS"
    and run: "applySpamGuardOrThrow now key ss = (r, ss1)"
  shows "r = Inl \<lparr>message = ''TOO_FAST'', statusCode = 429,
                   retryAfterSec = Some 3, spam = True\<rparr> \<and>
         ss1 = ss(key \<mapsto> st0\<lparr>blockedUntil := now + 3000\<rparr>) \<and>
         (\<forall>t. t < now + 3000 \<longrightarrow>
            applySpamGuardOrThrow t key ss1 = (Inl (cooldownError (now + 3000) t), ss1)) \<and>
         (\<forall>t t'. t \<le> t' \<longrightarrow> cooldownSeconds (now + 3000) t' \<le> cooldownSeconds (now + 3000) t) \<and>
         (\<forall>t t'. t + 1000 \<le> t' \<and> t' < now + 3000 \<longrightarrow>
            cooldownSeconds (now + 3000) t' < cooldownSeconds (now + 3000) t)"
proof -
  let ?st1 = "st0\<lparr>blockedUntil := now + 3000\<rparr>"
  have step: "applySpamGuardOrThrow now key ss =
      (Inl \<lparr>message = ''TOO_FAST'', statusCode = 429, retryAfterSec = Some 3, spam = True\<rparr>,
       ss(key \<mapsto> ?st1))"
    using nocool prev fast
    unfolding applySpamGuardOrThrow_def Let_def st0 [symmetric] by simp
  from step run have r: "r = Inl \<lparr>message = ''TOO_FAST'', statusCode = 429,
                   retryAfterSec = Some 3, spam = True\<rparr>"
    and ss1: "ss1 = ss(key \<mapsto> ?st1)" by simp_all
  have cool: "applySpamGuardOrThrow t key ss1 = (Inl (cooldownError (now + 3000) t), ss1)"
    if "t < now + 3000" for t
  proof -
    have "ss1 key = Some ?st1" by (simp add: ss1)
    moreover have "blockedUntil ?st1 \<noteq> 0" using now by simp
    moreover have "t < blockedUntil ?st1" using that by simp
    ultimately have "applySpamGuardOrThrow t key ss1 =
        (Inl (cooldownError (blockedUntil ?st1) t), ss1)"
      by (rule cooldown_call)
    then show ?thesis by simp
  qed
  show ?thesis
    using r ss1 cool cooldownSeconds_mono cooldownSeconds_strict by blast
qed

theorem too_fast_then_cooldown_witness:
  "applySpamGuardOrThrow 50300 ''cid:abcdefgh'' spamState_one =
     (Inl \<lparr>message = ''TOO_FAST'', statusCode = 429, retryAfterSec = Some 3, spam = True\<rparr>,
      [''cid:abcdefgh'' \<mapsto> \<lparr>windowStart = 50000, count = 1, blockedUntil = 53300, lastAt = 50000\<rparr>]) \<and>
   applySpamGuardOrThrow 51000 ''cid:abcdefgh''
      [''cid:abcdefgh'' \<mapsto> \<lparr>windowStart = 50000, count = 1, blockedUntil = 53300, lastAt = 50000\<rparr>] =
     (Inl \<lparr>message = ''COOLDOWN'', statusCode = 429, retryAfterSec = Some 3, spam = True\<rparr>,
      [''cid:abcdefgh'' \<mapsto> \<lparr>windowStart = 50000, count = 1, blockedUntil = 53300, lastAt = 50000\<rparr>]) \<and>
   cooldownSeconds 53300 52500 < cooldownSeconds 53300 51000"
proof -
  let ?s1 = "[''cid:abcdefgh'' \<mapsto>
               \<lparr>windowStart = 50000, count = 1, blockedUntil = 53300, lastAt = 50000\<rparr>]"
  have run: "applySpamGuardOrThrow 50300 ''cid:abcdefgh'' spamState_one =
     (Inl \<lparr>message = ''TOO_FAST'', statusCode = 429, retryAfterSec = Some 3, spam = True\<rparr>, ?s1)"
    by (simp add: applySpamGuardOrThrow_def spamGet_def spamState_one_def gov_consts)
  note inst = too_fast_then_cooldown [OF refl _ _ _ _ run]
  have hyps: "(0::int) \<le> 50300"
    "\<not> (blockedUntil (spamGet 50300 ''cid:abcdefgh'' spamState_one) \<noteq> 0 \<and>
        50300 < blockedUntil (spamGet 50300 ''cid:abcdefgh'' spamState_one))"
    "lastAt (spamGet 50300 ''cid:abcdefgh'' spamState_one) \<noteq> 0"
    "50300 - lastAt (spamGet 50300 ''cid:abcdefgh'' spamState_one) < MIN_INTERVAL_MS"
    by (simp_all add: spamGet_def spamState_one_def gov_consts)
  note concl = inst [OF hyps]
  from concl have "\<forall>t. t < 50300 + 3000 \<longrightarrow>
      applySpamGuardOrThrow t ''cid:abcdefgh'' ?s1 = (Inl (cooldownError (50300 + 3000) t), ?s1)"
    by blast
  then have "applySpamGuardOrThrow 51000 ''cid:abcdefgh'' ?s1 =
      (Inl (cooldownError (50300 + 3000) 51000), ?s1)"
    by simp
  moreover from concl have "\<forall>t t'. t + 1000 \<le> t' \<and> t' < 50300 + 3000 \<longrightarrow>
      cooldownSeconds (50300 + 3000) t' < cooldownSeconds (50300 + 3000) t"
    by blast
  then have "cooldownSeconds (50300 + 3000) 52500 < cooldownSeconds (50300 + 3000) 51000"
    by simp
  ultimately show ?thesis using run by (simp add: cooldownError_def cooldownSeconds_def)
qed

text \<open>
  The scenario of the specification: a submission that the guard accepts at \<open>t1\<close> is the
  previous recorded request of the next one, which fails TOO_FAST when it comes less than
  \<open>MIN_INTERVAL_MS\<close> later.
\<close>

lemma accepted_then_too_fast:
  assumes "applySpamGuardOrThrow t1 key ss = (Inr (), ss1)"
    and "0 < t1" and "t1 \<le> t2" and "t2 - t1 < MIN_INTERVAL_MS"
  shows "applySpamGuardOrThrow t2 key ss1 =
     (Inl \<lparr>message = ''TOO_FAST'', statusCode = 429, retryAfterSec = Some 3, spam = True\<rparr>,
      ss1(key \<mapsto> (spamGet t2 key ss1)\<lparr>blockedUntil := t2 + 3000\<rparr>))"
proof -
  from assms(1) obtain st1 where st1: "ss1 key = Some st1" "lastAt st1 = t1"
    "blockedUntil st1 = 0 \<or> blockedUntil st1 \<le> t1"
    by (auto simp: applySpamGuardOrThrow_def Let_def split: if_splits)
  then show ?thesis
    using assms(2-4) by (auto simp: applySpamGuardOrThrow_def Let_def spamGet_def)
qed

subsection \<open>InFlightGuard\<close>

lemma busy_when_held:
  "fl key = Some True \<Longrightarrow> applyBusyGuardOrThrow key fl = (Inl busyError, fl)"
  by (simp add: applyBusyGuardOrThrow_def busyError_def)

lemma clearBusy_idem: "clearBusy key (clearBusy key fl) = clearBusy key fl"
  by (simp add: clearBusy_def)

lemma admit_Inr:
  assumes "admit clk key g = (Inr (), g1)"
  shows "fst (applyRateLimitOrThrow (tRate clk) key (rateState g)) = Inr ()"
    and "fst (applySpamGuardOrThrow (tSpam clk) key (spamState g)) = Inr ()"
    and "inFlight g key \<noteq> Some True"
    and "inFlight g1 = (inFlight g)(key \<mapsto> True)"
  using assms
  by (auto simp: admit_def Let_def applyBusyGuardOrThrow_def
      split: prod.splits sum.splits if_splits)

lemma admit_Inl:
  assumes "admit clk key g = (Inl e, g')"
  shows "inFlight g' = inFlight g"
  using assms
  by (auto simp: admit_def Let_def applyBusyGuardOrThrow_def
      split: prod.splits sum.splits if_splits)

lemma admit_held:
  assumes "inFlight g key = Some True"
  shows "\<exists>e g'. admit clk key g = (Inl e, g') \<and> inFlight g' = inFlight g"
proof (cases "admit clk key g")
  case (Pair r g')
  show ?thesis
  proof (cases r)
    case (Inl e)
    with Pair admit_Inl show ?thesis by blast
  next
    case (Inr u)
    with Pair have "admit clk key g = (Inr (), g')" by simp
    from admit_Inr(3) [OF this] assms show ?thesis by simp
  qed
qed

lemma computeReply_inFlight:
  "inFlight (snd (computeReply clk gen msg history category g)) = inFlight g"
  by (simp add: computeReply_def Let_def split: option.splits sum.splits)

lemma handler_admitted:
  assumes "msg \<noteq> []" and "admit clk (getClientKey clientId ip) g = (Inr (), g1)"
  shows "inFlight (snd (handleChatBuffered clk gen msg history category clientId ip g)) =
         clearBusy (getClientKey clientId ip) (inFlight g1)"
  using assms
  by (simp add: handleChatBuffered_def Let_def split_beta computeReply_inFlight)

lemma handler_rejected:
  assumes "msg \<noteq> []" and "admit clk (getClientKey clientId ip) g = (Inl e, g')"
  shows "handleChatBuffered clk gen msg history category clientId ip g = (Inl e, g')"
  using assms by (simp add: handleChatBuffered_def)

lemma admit_held_busy:
  assumes "inFlight g key = Some True"
    and "fst (applyRateLimitOrThrow (tRate clk) key (rateState g)) = Inr ()"
    and "fst (applySpamGuardOrThrow (tSpam clk) key (spamState g)) = Inr ()"
  shows "fst (admit clk key g) = Inl busyError"
  using assms
  by (auto simp: admit_def Let_def applyBusyGuardOrThrow_def busyError_def
      split: prod.splits sum.splits)

lemma admit_checks_fail:
  shows "fst (applyRateLimitOrThrow (tRate clk) key (rateState g)) = Inl e \<Longrightarrow>
           fst (admit clk key g) = Inl e \<and> inFlight (snd (admit clk key g)) = inFlight g"
    and "fst (applyRateLimitOrThrow (tRate clk) key (rateState g)) = Inr () \<Longrightarrow>
         fst (applySpamGuardOrThrow (tSpam clk) key (spamState g)) = Inl e \<Longrightarrow>
           fst (admit clk key g) = Inl e \<and> inFlight (snd (admit clk key g)) = inFlight g"
  by (auto simp: admit_def Let_def split: prod.splits sum.splits)

lemma streamBody_inFlight:
  "inFlight (snd (streamBody clk gs msg history category g)) = inFlight g"
  by (simp add: streamBody_def Let_def split_beta
      split: option.splits generation.splits)

lemma stream_admitted:
  assumes "msg \<noteq> []" and "admit clk (getClientKey clientId ip) g = (Inr (), g1)"
  shows "inFlight (snd (handleChatStream clk gs msg history category clientId ip g)) =
         clearBusy (getClientKey clientId ip) (inFlight g1)"
  using assms
  by (simp add: handleChatStream_def Let_def split_beta streamBody_inFlight)

lemma stream_rejected:
  assumes "msg \<noteq> []" and "admit clk (getClientKey clientId ip) g = (Inl e, g')"
  shows "handleChatStream clk gs msg history category clientId ip g =
           (\<lparr>thrown = Some e, written = [], ended = False\<rparr>, g')"
  using assms by (simp add: handleChatStream_def)

text \<open>
  Claim C1. For every request with a message, in either handler. If the rate limiter or the
  spam guard throws, the request is rejected with that error and \<open>inFlight\<close> is as
  before: the key is not added. Whatever guard rejects a request, \<open>inFlight\<close> is as
  before, the buffered handler throws the guard's error, and the streaming handler throws
  it with nothing written and the stream not ended; neither reaches its \<^verbatim>\<open>finally\<close>.
  If the request is admitted, then the rate limiter and the spam guard had both returned
  normally, the key was free, and it is the one key added to \<open>inFlight\<close>. While the key
  is held, \<open>applyBusyGuardOrThrow\<close> for it throws BUSY with status 409 and leaves the map
  as it is; a second request for the key is rejected by both handlers at whatever time it
  comes, with BUSY when it gets past the rate limiter and the spam guard, and \<open>inFlight\<close>
  still holds the key afterwards. Each handler ends the admitted request with exactly the
  key removed, whatever the generation did (returned or threw, streamed or failed).
  \<open>clearBusy\<close> is idempotent and removes a held key.
\<close>

theorem in_flight_guard:
  assumes msg: "msg \<noteq> []"
    and key: "key = getClientKey clientId ip"
  shows "(\<forall>e. fst (applyRateLimitOrThrow (tRate clk) key (rateState g)) = Inl e \<longrightarrow>
              fst (admit clk key g) = Inl e \<and> inFlight (snd (admit clk key g)) = inFlight g) \<and>
         (\<forall>e. fst (applyRateLimitOrThrow (tRate clk) key (rateState g)) = Inr () \<and>
              fst (applySpamGuardOrThrow (tSpam clk) key (spamState g)) = Inl e \<longrightarrow>
              fst (admit clk key g) = Inl e \<and> inFlight (snd (admit clk key g)) = inFlight g) \<and>
         (\<forall>e g'. admit clk key g = (Inl e, g') \<longrightarrow>
              inFlight g' = inFlight g \<and>
              (\<forall>gen. handleChatBuffered clk gen msg history category clientId ip g = (Inl e, g')) \<and>
              (\<forall>gs. handleChatStream clk gs msg history category clientId ip g =
                       (\<lparr>thrown = Some e, written = [], ended = False\<rparr>, g'))) \<and>
         (\<forall>g1. admit clk key g = (Inr (), g1) \<longrightarrow>
              fst (applyRateLimitOrThrow (tRate clk) key (rateState g)) = Inr () \<and>
              fst (applySpamGuardOrThrow (tSpam clk) key (spamState g)) = Inr () \<and>
              inFlight g key \<noteq> Some True \<and>
              inFlight g1 = (inFlight g)(key \<mapsto> True) \<and>
              applyBusyGuardOrThrow key (inFlight g1) = (Inl busyError, inFlight g1) \<and>
              (\<forall>clk' gen' gs'. \<exists>e g'.
                  admit clk' key g1 = (Inl e, g') \<and> inFlight g' = inFlight g1 \<and>
                  (fst (applyRateLimitOrThrow (tRate clk') key (rateState g1)) = Inr () \<and>
                   fst (applySpamGuardOrThrow (tSpam clk') key (spamState g1)) = Inr ()
                     \<longrightarrow> e = busyError) \<and>
                  handleChatBuffered clk' gen' msg history category clientId ip g1 = (Inl e, g') \<and>
                  handleChatStream clk' gs' msg history category clientId ip g1 =
                    (\<lparr>thrown = Some e, written = [], ended = False\<rparr>, g')) \<and>
              (\<forall>gen. inFlight (snd (handleChatBuffered clk gen msg history category clientId ip g)) =
                     (inFlight g)(key := None)) \<and>
              (\<forall>gs. inFlight (snd (handleChatStream clk gs msg history category clientId ip g)) =
                     (inFlight g)(key := None))) \<and>
         (\<forall>fl. clearBusy key (clearBusy key fl) = clearBusy key fl \<and>
               clearBusy key (fl(key \<mapsto> True)) = fl(key := None))"
proof -
  have rate: "fst (admit clk key g) = Inl e \<and> inFlight (snd (admit clk key g)) = inFlight g"
    if "fst (applyRateLimitOrThrow (tRate clk) key (rateState g)) = Inl e" for e
    using that by (rule admit_checks_fail(1))
  have spam: "fst (admit clk key g) = Inl e \<and> inFlight (snd (admit clk key g)) = inFlight g"
    if "fst (applyRateLimitOrThrow (tRate clk) key (rateState g)) = Inr () \<and>
        fst (applySpamGuardOrThrow (tSpam clk) key (spamState g)) = Inl e" for e
    using that admit_checks_fail(2) by blast
  have rejected: "inFlight g' = inFlight g \<and>
        (\<forall>gen. handleChatBuffered clk gen msg history category clientId ip g = (Inl e, g')) \<and>
        (\<forall>gs. handleChatStream clk gs msg history category clientId ip g =
                 (\<lparr>thrown = Some e, written = [], ended = False\<rparr>, g'))"
    if rej: "admit clk key g = (Inl e, g')" for e g'
  proof -
    have "inFlight g' = inFlight g" using rej by (rule admit_Inl)
    moreover have "handleChatBuffered clk gen msg history category clientId ip g = (Inl e, g')"
      for gen using handler_rejected [OF msg] rej key by simp
    moreover have "handleChatStream clk gs msg history category clientId ip g =
                 (\<lparr>thrown = Some e, written = [], ended = False\<rparr>, g')"
      for gs using stream_rejected [OF msg] rej key by simp
    ultimately show ?thesis by simp
  qed
  have admitted: "fst (applyRateLimitOrThrow (tRate clk) key (rateState g)) = Inr () \<and>
              fst (applySpamGuardOrThrow (tSpam clk) key (spamState g)) = Inr () \<and>
              inFlight g key \<noteq> Some True \<and>
              inFlight g1 = (inFlight g)(key \<mapsto> True) \<and>
              applyBusyGuardOrThrow key (inFlight g1) = (Inl busyError, inFlight g1) \<and>
              (\<forall>clk' gen' gs'. \<exists>e g'.
                  admit clk' key g1 = (Inl e, g') \<and> inFlight g' = inFlight g1 \<and>
                  (fst (applyRateLimitOrThrow (tRate clk') key (rateState g1)) = Inr () \<and>
                   fst (applySpamGuardOrThrow (tSpam clk') key (spamState g1)) = Inr ()
                     \<longrightarrow> e = busyError) \<and>
                  handleChatBuffered clk' gen' msg history category clientId ip g1 = (Inl e, g') \<and>
                  handleChatStream clk' gs' msg history category clientId ip g1 =
                    (\<lparr>thrown = Some e, written = [], ended = False\<rparr>, g')) \<and>
              (\<forall>gen. inFlight (snd (handleChatBuffered clk gen msg history category clientId ip g)) =
                     (inFlight g)(key := None)) \<and>
              (\<forall>gs. inFlight (snd (handleChatStream clk gs msg history category clientId ip g)) =
                     (inFlight g)(key := None))"
    if adm: "admit clk key g = (Inr (), g1)" for g1
  proof -
    note a = admit_Inr [OF adm]
    have held: "inFlight g1 key = Some True" by (simp add: a(4))
    have second: "\<exists>e g'. admit clk' key g1 = (Inl e, g') \<and> inFlight g' = inFlight g1 \<and>
               (fst (applyRateLimitOrThrow (tRate clk') key (rateState g1)) = Inr () \<and>
                fst (applySpamGuardOrThrow (tSpam clk') key (spamState g1)) = Inr ()
                  \<longrightarrow> e = busyError) \<and>
               handleChatBuffered clk' gen' msg history category clientId ip g1 = (Inl e, g') \<and>
               handleChatStream clk' gs' msg history category clientId ip g1 =
                    (\<lparr>thrown = Some e, written = [], ended = False\<rparr>, g')"
      for clk' gen' gs'
    proof -
      from admit_held [OF held, of clk'] obtain e g'
        where rej: "admit clk' key g1 = (Inl e, g')" and same: "inFlight g' = inFlight g1"
        by blast
      have "e = busyError"
        if "fst (applyRateLimitOrThrow (tRate clk') key (rateState g1)) = Inr ()"
          and "fst (applySpamGuardOrThrow (tSpam clk') key (spamState g1)) = Inr ()"
        using admit_held_busy [OF held that] rej by simp
      moreover have "handleChatBuffered clk' gen' msg history category clientId ip g1 = (Inl e, g')"
        using handler_rejected [OF msg] rej key by simp
      moreover have "handleChatStream clk' gs' msg history category clientId ip g1 =
                    (\<lparr>thrown = Some e, written = [], ended = False\<rparr>, g')"
        using stream_rejected [OF msg] rej key by simp
      ultimately show ?thesis using rej same by blast
    qed
    have fin: "inFlight (snd (handleChatBuffered clk gen msg history category clientId ip g)) =
                  (inFlight g)(key := None)" for gen
      using handler_admitted [OF msg, of clk clientId ip g g1 gen history category] adm key
      by (simp add: a(4) clearBusy_def)
    have fin2: "inFlight (snd (handleChatStream clk gs msg history category clientId ip g)) =
                  (inFlight g)(key := None)" for gs
      using stream_admitted [OF msg, of clk clientId ip g g1 gs history category] adm key
      by (simp add: a(4) clearBusy_def)
    show ?thesis
      using a busy_when_held [of "inFlight g1" key, OF held] second fin fin2 by blast
  qed
  have rel: "clearBusy key (clearBusy key fl) = clearBusy key fl \<and>
               clearBusy key (fl(key \<mapsto> True)) = fl(key := None)" for fl
    by (simp add: clearBusy_def)
  show ?thesis using rate spam rejected admitted rel by blast
qed

theorem in_flight_guard_witness:
  "admit (clockAt 1000) ''ip:10.0.0.7'' freshGlobals =
     (Inr (),
      \<lparr>rateState = [''ip:10.0.0.7'' \<mapsto> \<lparr>windowStart = 1000, count = 1, resetAt = 61000\<rparr>],
       spamState = [''ip:10.0.0.7'' \<mapsto>
                     \<lparr>windowStart = 1000, count = 1, blockedUntil = 0, lastAt = 1000\<rparr>],
       inFlight = [''ip:10.0.0.7'' \<mapsto> True], cache = Map.empty, generations = 0\<rparr>) \<and>
   applyBusyGuardOrThrow ''ip:10.0.0.7'' [''ip:10.0.0.7'' \<mapsto> True] =
     (Inl busyError, [''ip:10.0.0.7'' \<mapsto> True]) \<and>
   inFlight (snd (handleChatBuffered (clockAt 1000) (Inr ''Szia!'') ''hello'' [] ''auto'' None
                    ''10.0.0.7'' freshGlobals)) = Map.empty \<and>
   inFlight (snd (handleChatBuffered (clockAt 1000) (Inl busyError) ''hello'' [] ''auto'' None
                    ''10.0.0.7'' freshGlobals)) = Map.empty \<and>
   inFlight (snd (handleChatStream (clockAt 1000) (Stream [''Szi'', ''a!''] None) ''hello'' []
                    ''auto'' None ''10.0.0.7'' freshGlobals)) = Map.empty \<and>
   inFlight (snd (handleChatStream (clockAt 1000) (Stream [''Szi''] (Some upstreamError))
                    ''hello'' [] ''auto'' None ''10.0.0.7'' freshGlobals)) = Map.empty \<and>
   fst (admit (clockAt 2500) ''cid:abcdefgh'' (freshGlobals\<lparr>rateState := rateState_full\<rparr>)) =
     Inl \<lparr>message = ''RATE_LIMIT'', statusCode = 429, retryAfterSec = Some 59, spam = False\<rparr> \<and>
   inFlight (snd (admit (clockAt 2500) ''cid:abcdefgh''
                    (freshGlobals\<lparr>rateState := rateState_full\<rparr>))) = Map.empty \<and>
   inFlight (snd (handleChatBuffered (clockAt 2500) (Inr ''Szia!'') ''hello'' [] ''auto''
                    (Some ''abcdefgh'') ''10.0.0.7''
                    (freshGlobals\<lparr>rateState := rateState_full\<rparr>))) = Map.empty \<and>
   fst (handleChatStream (clockAt 2500) (Stream [''Szi'', ''a!''] None) ''hello'' [] ''auto''
          (Some ''abcdefgh'') ''10.0.0.7'' (freshGlobals\<lparr>rateState := rateState_full\<rparr>)) =
     \<lparr>thrown = Some \<lparr>message = ''RATE_LIMIT'', statusCode = 429, retryAfterSec = Some 59,
                      spam = False\<rparr>,
       written = [], ended = False\<rparr>"
proof -
  let ?g1 = "\<lparr>rateState = [''ip:10.0.0.7'' \<mapsto> \<lparr>windowStart = 1000, count = 1, resetAt = 61000\<rparr>],
       spamState = [''ip:10.0.0.7'' \<mapsto>
                     \<lparr>windowStart = 1000, count = 1, blockedUntil = 0, lastAt = 1000\<rparr>],
       inFlight = [''ip:10.0.0.7'' \<mapsto> True], cache = Map.empty, generations = 0\<rparr>"
  let ?g = "freshGlobals\<lparr>rateState := rateState_full\<rparr>"
  let ?e = "\<lparr>message = ''RATE_LIMIT'', statusCode = 429, retryAfterSec = Some 59, spam = False\<rparr>"
  have msg: "''hello'' \<noteq> []" by simp
  have adm: "admit (clockAt 1000) ''ip:10.0.0.7'' freshGlobals = (Inr (), ?g1)"
    by (simp add: admit_def clockAt_def freshGlobals_def applyRateLimitOrThrow_def rateGet_def
        applySpamGuardOrThrow_def spamGet_def applyBusyGuardOrThrow_def gov_consts)
  have key: "''ip:10.0.0.7'' = getClientKey None ''10.0.0.7''"
    by (simp add: getClientKey_def)
  note inst = in_flight_guard [OF msg key, of "clockAt 1000" freshGlobals "[]" "''auto''",
      THEN conjunct2, THEN conjunct2, THEN conjunct2, THEN conjunct1, rule_format, OF adm]
  have held: "applyBusyGuardOrThrow ''ip:10.0.0.7'' (inFlight ?g1) = (Inl busyError, inFlight ?g1)"
    using inst by blast
  have rel: "inFlight (snd (handleChatBuffered (clockAt 1000) gen ''hello'' []
        ''auto'' None ''10.0.0.7'' freshGlobals)) = (inFlight freshGlobals)(''ip:10.0.0.7'' := None)"
    for gen using inst by blast
  have rel2: "inFlight (snd (handleChatStream (clockAt 1000) gs ''hello'' []
        ''auto'' None ''10.0.0.7'' freshGlobals)) = (inFlight freshGlobals)(''ip:10.0.0.7'' := None)"
    for gs using inst by blast
  have key2: "''cid:abcdefgh'' = getClientKey (Some ''abcdefgh'') ''10.0.0.7''"
    by (simp add: getClientKey_def)
  have rate: "fst (applyRateLimitOrThrow (tRate (clockAt 2500)) ''cid:abcdefgh'' (rateState ?g)) = Inl ?e"
    by (simp add: clockAt_def freshGlobals_def rateState_full_def applyRateLimitOrThrow_def
        rateGet_def retrySeconds_def gov_consts)
  note rejd = in_flight_guard [OF msg key2, of "clockAt 2500" ?g "[]" "''auto''"]
  have rej: "fst (admit (clockAt 2500) ''cid:abcdefgh'' ?g) = Inl ?e \<and>
             inFlight (snd (admit (clockAt 2500) ''cid:abcdefgh'' ?g)) = inFlight ?g"
    using rejd [THEN conjunct1, rule_format, OF rate] .
  then have pair: "admit (clockAt 2500) ''cid:abcdefgh'' ?g =
      (Inl ?e, snd (admit (clockAt 2500) ''cid:abcdefgh'' ?g))"
    by (metis prod.collapse)
  note h = rejd [THEN conjunct2, THEN conjunct2, THEN conjunct1, rule_format, OF pair]
  have hb: "handleChatBuffered (clockAt 2500) gen ''hello'' [] ''auto'' (Some ''abcdefgh'')
      ''10.0.0.7'' ?g = (Inl ?e, snd (admit (clockAt 2500) ''cid:abcdefgh'' ?g))" for gen
    using h by blast
  have hs: "handleChatStream (clockAt 2500) gs ''hello'' [] ''auto'' (Some ''abcdefgh'')
      ''10.0.0.7'' ?g = (\<lparr>thrown = Some ?e, written = [], ended = False\<rparr>,
         snd (admit (clockAt 2500) ''cid:abcdefgh'' ?g))" for gs
    using h by blast
  have empty: "inFlight ?g = Map.empty" "inFlight freshGlobals = Map.empty"
    by (simp_all add: freshGlobals_def)
  show ?thesis
    unfolding hb hs rel rel2 using adm held rej by (simp add: empty)
qed

subsection \<open>ResponseCache\<close>

lemma cleanupCache_keeps:
  "cache0 k = Some c \<Longrightarrow> now - ts c \<le> CACHE_TTL \<Longrightarrow> cleanupCache now cache0 k = Some c"
  by (simp add: cleanupCache_def)

lemma cleanupCache_purges:
  "cache0 k = Some c \<Longrightarrow> now - ts c > CACHE_TTL \<Longrightarrow> cleanupCache now cache0 k = None"
  by (simp add: cleanupCache_def)

lemma cleanupCache_absent:
  "cleanupCache now (cache0(k := None)) = (cleanupCache now cache0)(k := None)"
  by (auto simp: cleanupCache_def)

lemma computeReply_hit:
  assumes "cache g (makeCacheKey msg history category) = Some c"
    and "tClean clk \<le> tCheck clk"
    and "tCheck clk - ts c < CACHE_TTL"
  shows "computeReply clk gen msg history category g =
           (Inr \<lparr>reply = reply c, cached = True\<rparr>,
            g\<lparr>cache := cleanupCache (tClean clk) (cache g)\<rparr>)"
proof -
  have "tClean clk - ts c \<le> CACHE_TTL" using assms(2,3) by simp
  with assms(1) have "cleanupCache (tClean clk) (cache g) (makeCacheKey msg history category) = Some c"
    by (rule cleanupCache_keeps)
  then show ?thesis using assms(3) by (simp add: computeReply_def Let_def)
qed

lemma computeReply_miss:
  assumes "cleanupCache (tClean clk) (cache g) (makeCacheKey msg history category) = None"
  shows "computeReply clk gen msg history category g =
           (case gen of
              Inl e \<Rightarrow> (Inl e, g\<lparr>cache := cleanupCache (tClean clk) (cache g),
                                 generations := generations g + 1\<rparr>)
            | Inr raw \<Rightarrow>
                (Inr \<lparr>reply = trim raw, cached = False\<rparr>,
                 g\<lparr>cache := (cleanupCache (tClean clk) (cache g))
                        (makeCacheKey msg history category \<mapsto> \<lparr>reply = trim raw, ts = tStore clk\<rparr>),
                   generations := generations g + 1\<rparr>))"
  using assms by (simp add: computeReply_def Let_def split: sum.splits)

text \<open>
  Claim C5. Let the cache hold an entry under the key of a request. A request that tests
  the entry at an age below \<open>CACHE_TTL\<close> (its clean-up pass having read the clock no later
  than the test) gets the stored answer with \<open>cached = True\<close>; the generation capability
  is not invoked and the entry stays. For a request whose clean-up pass finds the entry
  older than \<open>CACHE_TTL\<close>, that pass removes the entry, the request behaves as if the entry
  had never been stored, the generation capability is invoked once, and a generated answer
  is returned with \<open>cached = False\<close> and stored under the key.
\<close>

theorem cache_hit_and_expiry:
  assumes k: "k = makeCacheKey msg history category"
    and entry: "cache g k = Some c"
    and clock: "tClean clk \<le> tCheck clk"
    and young: "tCheck clk - ts c < CACHE_TTL"
    and old: "tClean clk' - ts c > CACHE_TTL"
  shows "computeReply clk gen msg history category g =
           (Inr \<lparr>reply = reply c, cached = True\<rparr>,
            g\<lparr>cache := cleanupCache (tClean clk) (cache g)\<rparr>) \<and>
         generations (snd (computeReply clk gen msg history category g)) = generations g \<and>
         cache (snd (computeReply clk gen msg history category g)) k = Some c \<and>
         cleanupCache (tClean clk') (cache g) k = None \<and>
         computeReply clk' gen msg history category g =
           computeReply clk' gen msg history category (g\<lparr>cache := (cache g)(k := None)\<rparr>) \<and>
         generations (snd (computeReply clk' gen msg history category g)) = generations g + 1 \<and>
         (\<forall>raw. gen = Inr raw \<longrightarrow>
            fst (computeReply clk' gen msg history category g) =
              Inr \<lparr>reply = trim raw, cached = False\<rparr> \<and>
            cache (snd (computeReply clk' gen msg history category g)) k =
              Some \<lparr>reply = trim raw, ts = tStore clk'\<rparr>)"
proof -
  have hit: "computeReply clk gen msg history category g =
           (Inr \<lparr>reply = reply c, cached = True\<rparr>,
            g\<lparr>cache := cleanupCache (tClean clk) (cache g)\<rparr>)"
    using entry clock young unfolding k by (rule computeReply_hit)
  have kept: "cleanupCache (tClean clk) (cache g) k = Some c"
    using entry clock young by (intro cleanupCache_keeps) simp_all
  have gone: "cleanupCache (tClean clk') (cache g) k = None"
    using entry old by (rule cleanupCache_purges)
  have miss: "computeReply clk' gen msg history category g =
           (case gen of
              Inl e \<Rightarrow> (Inl e, g\<lparr>cache := cleanupCache (tClean clk') (cache g),
                                 generations := generations g + 1\<rparr>)
            | Inr raw \<Rightarrow>
                (Inr \<lparr>reply = trim raw, cached = False\<rparr>,
                 g\<lparr>cache := (cleanupCache (tClean clk') (cache g))
                        (k \<mapsto> \<lparr>reply = trim raw, ts = tStore clk'\<rparr>),
                   generations := generations g + 1\<rparr>))"
    using computeReply_miss [of clk' g msg history category gen] gone unfolding k by simp
  have same_clean: "cleanupCache (tClean clk') ((cache g)(k := None)) = cleanupCache (tClean clk') (cache g)"
    using gone by (simp add: cleanupCache_absent fun_upd_idem)
  have absent: "computeReply clk' gen msg history category (g\<lparr>cache := (cache g)(k := None)\<rparr>) =
      computeReply clk' gen msg history category g"
    by (simp add: computeReply_def Let_def same_clean)
  show ?thesis
    using hit kept gone absent miss by (auto split: sum.splits)
qed

theorem cache_hit_and_expiry_witness:
  "computeReply (clockAt 5000) (Inr ''Igen.'') ''hello'' [] ''auto'' cachedGlobals =
     (Inr \<lparr>reply = ''Szia!'', cached = True\<rparr>, cachedGlobals) \<and>
   fst (computeReply (clockAt 21601001) (Inr '' Igen. '') ''hello'' [] ''auto'' cachedGlobals) =
     Inr \<lparr>reply = ''Igen.'', cached = False\<rparr> \<and>
   generations (snd (computeReply (clockAt 21601001) (Inr '' Igen. '') ''hello'' [] ''auto''
      cachedGlobals)) = 1 \<and>
   cache (snd (computeReply (clockAt 21601001) (Inr '' Igen. '') ''hello'' [] ''auto''
      cachedGlobals)) ''auto::hello::'' = Some \<lparr>reply = ''Igen.'', ts = 21601901\<rparr>"
proof -
  have k: "''auto::hello::'' = makeCacheKey ''hello'' [] ''auto''"
    by (simp add: makeCacheKey_def normalizeCategory_def VALID_CATEGORIES_def lastFour_def)
  have entry: "cache cachedGlobals ''auto::hello::'' = Some \<lparr>reply = ''Szia!'', ts = 1000\<rparr>"
    by (simp add: cachedGlobals_def freshGlobals_def)
  have clock: "tClean (clockAt 5000) \<le> tCheck (clockAt 5000)"
    and young: "tCheck (clockAt 5000) - ts \<lparr>reply = ''Szia!'', ts = 1000\<rparr> < CACHE_TTL"
    and old: "tClean (clockAt 21601001) - ts \<lparr>reply = ''Szia!'', ts = 1000\<rparr> > CACHE_TTL"
    by (simp_all add: clockAt_def CACHE_TTL_def)
  have clean: "cleanupCache 5000 (cache cachedGlobals) = cache cachedGlobals"
    by (auto simp: cleanupCache_def cachedGlobals_def freshGlobals_def CACHE_TTL_def)
  have tr: "trim '' Igen. '' = ''Igen.''"
    by (simp add: trim_def isWhiteSpace_def)
  note inst = cache_hit_and_expiry [OF k entry clock young old]
  from inst [of "Inr ''Igen.''", THEN conjunct1]
  have "computeReply (clockAt 5000) (Inr ''Igen.'') ''hello'' [] ''auto'' cachedGlobals =
     (Inr \<lparr>reply = ''Szia!'', cached = True\<rparr>,
      cachedGlobals\<lparr>cache := cleanupCache (tClean (clockAt 5000)) (cache cachedGlobals)\<rparr>)"
    by simp
  then have first: "computeReply (clockAt 5000) (Inr ''Igen.'') ''hello'' [] ''auto'' cachedGlobals =
     (Inr \<lparr>reply = ''Szia!'', cached = True\<rparr>, cachedGlobals)"
    using clean by (simp add: clockAt_def)
  note rest = inst [of "Inr '' Igen. ''", THEN conjunct2, THEN conjunct2, THEN conjunct2,
      THEN conjunct2, THEN conjunct2]
  from rest
  have "generations (snd (computeReply (clockAt 21601001) (Inr '' Igen. '') ''hello'' []
      ''auto'' cachedGlobals)) = generations cachedGlobals + 1"
    by (rule conjunct1)
  then have second: "generations (snd (computeReply (clockAt 21601001) (Inr '' Igen. '') ''hello'' []
      ''auto'' cachedGlobals)) = 1"
    by (simp add: cachedGlobals_def freshGlobals_def)
  from rest [THEN conjunct2, rule_format, OF refl]
  have "fst (computeReply (clockAt 21601001) (Inr '' Igen. '') ''hello'' [] ''auto'' cachedGlobals) =
      Inr \<lparr>reply = trim '' Igen. '', cached = False\<rparr> \<and>
    cache (snd (computeReply (clockAt 21601001) (Inr '' Igen. '') ''hello'' [] ''auto''
      cachedGlobals)) ''auto::hello::'' =
      Some \<lparr>reply = trim '' Igen. '', ts = tStore (clockAt 21601001)\<rparr>" .
  then have third: "fst (computeReply (clockAt 21601001) (Inr '' Igen. '') ''hello'' [] ''auto''
      cachedGlobals) = Inr \<lparr>reply = ''Igen.'', cached = False\<rparr> \<and>
    cache (snd (computeReply (clockAt 21601001) (Inr '' Igen. '') ''hello'' [] ''auto''
      cachedGlobals)) ''auto::hello::'' = Some \<lparr>reply = ''Igen.'', ts = 21601901\<rparr>"
    by (simp add: tr clockAt_def)
  from first second third show ?thesis by simp
qed

lemma computeReply_generated:
  assumes "computeReply clk gen msg history category g = (Inr r, g1)" and "\<not> cached r"
  shows "cache g1 (makeCacheKey msg history category) = Some \<lparr>reply = reply r, ts = tStore clk\<rparr>"
  using assms
  by (auto simp: computeReply_def Let_def split: option.splits sum.splits if_splits)

lemma makeCacheKey_cong:
  assumes "normalizeCategory category1 = normalizeCategory category2"
    and "take 600 msg1 = take 600 msg2"
    and "map (\<lambda>x. (role x, take 140 (content x))) (lastFour history1) =
         map (\<lambda>x. (role x, take 140 (content x))) (lastFour history2)"
  shows "makeCacheKey msg1 history1 category1 = makeCacheKey msg2 history2 category2"
proof -
  have "map (\<lambda>x. role x @ '':'' @ take 140 (content x)) (lastFour history1) =
        map ((\<lambda>(r, c). r @ '':'' @ c) \<circ> (\<lambda>x. (role x, take 140 (content x)))) (lastFour history1)"
    by (simp add: comp_def)
  also have "\<dots> = map ((\<lambda>(r, c). r @ '':'' @ c) \<circ> (\<lambda>x. (role x, take 140 (content x)))) (lastFour history2)"
    using assms(3) by (simp only: map_map [symmetric])
  also have "\<dots> = map (\<lambda>x. role x @ '':'' @ take 140 (content x)) (lastFour history2)"
    by (simp add: comp_def)
  finally show ?thesis using assms(1,2) by (simp add: makeCacheKey_def Let_def)
qed

text \<open>
  Claim C10. Two requests whose categories normalise to the same name, whose messages agree
  on the first 600 characters and whose last four history turns agree, turn by turn, on
  the role and on the first 140 characters of the content, have the same cache key. So
  when the first of them was answered by generation, the second one, testing the cache
  less than \<open>CACHE_TTL\<close> after the first was stored, is served the first answer with
  \<open>cached = True\<close>, whatever the two requests contain beyond those bounds.
\<close>

theorem cache_key_truncation:
  assumes cat: "normalizeCategory category1 = normalizeCategory category2"
    and msg: "take 600 msg1 = take 600 msg2"
    and hist: "map (\<lambda>x. (role x, take 140 (content x))) (lastFour history1) =
               map (\<lambda>x. (role x, take 140 (content x))) (lastFour history2)"
    and first: "computeReply clk1 gen1 msg1 history1 category1 g = (Inr r1, g1)"
    and generated: "\<not> cached r1"
    and clock: "tClean clk2 \<le> tCheck clk2"
    and within: "tCheck clk2 - tStore clk1 < CACHE_TTL"
  shows "makeCacheKey msg1 history1 category1 = makeCacheKey msg2 history2 category2 \<and>
         computeReply clk2 gen2 msg2 history2 category2 g1 =
           (Inr \<lparr>reply = reply r1, cached = True\<rparr>,
            g1\<lparr>cache := cleanupCache (tClean clk2) (cache g1)\<rparr>)"
proof -
  have key: "makeCacheKey msg1 history1 category1 = makeCacheKey msg2 history2 category2"
    using cat msg hist by (rule makeCacheKey_cong)
  have "cache g1 (makeCacheKey msg2 history2 category2) =
          Some \<lparr>reply = reply r1, ts = tStore clk1\<rparr>"
    using computeReply_generated [OF first generated] key by simp
  from computeReply_hit [OF this clock, of gen2] within key show ?thesis by simp
qed

theorem cache_key_truncation_witness:
  "longMessage CHR ''x'' \<noteq> longMessage CHR ''y'' \<and>
   makeCacheKey (longMessage CHR ''x'') (longHistory ''first'' CHR ''1'') ''pizza'' =
   makeCacheKey (longMessage CHR ''y'') (longHistory ''other'' CHR ''2'') ''sushi'' \<and>
   fst (computeReply (clockAt 5000) (Inl busyError)
          (longMessage CHR ''y'') (longHistory ''other'' CHR ''2'') ''sushi''
          (snd (computeReply (clockAt 1000) (Inr ''Szia!'')
                  (longMessage CHR ''x'') (longHistory ''first'' CHR ''1'') ''pizza''
                  freshGlobals))) =
     Inr \<lparr>reply = ''Szia!'', cached = True\<rparr>"
proof -
  let ?first = "computeReply (clockAt 1000) (Inr ''Szia!'')
                  (longMessage CHR ''x'') (longHistory ''first'' CHR ''1'') ''pizza'' freshGlobals"
  have cat: "normalizeCategory ''pizza'' = normalizeCategory ''sushi''"
    by (simp add: normalizeCategory_def VALID_CATEGORIES_def)
  have msg: "take 600 (longMessage CHR ''x'') = take 600 (longMessage CHR ''y'')"
    by (simp add: longMessage_def)
  have hist: "map (\<lambda>x. (role x, take 140 (content x))) (lastFour (longHistory ''first'' CHR ''1'')) =
              map (\<lambda>x. (role x, take 140 (content x))) (lastFour (longHistory ''other'' CHR ''2''))"
    by (simp add: longHistory_def lastFour_def)
  have miss: "cleanupCache (tClean (clockAt 1000)) (cache freshGlobals)
      (makeCacheKey (longMessage CHR ''x'') (longHistory ''first'' CHR ''1'') ''pizza'') = None"
    by (simp add: cleanupCache_def freshGlobals_def)
  have tr: "trim ''Szia!'' = ''Szia!''"
    by (simp add: trim_def isWhiteSpace_def)
  have "fst ?first = Inr \<lparr>reply = ''Szia!'', cached = False\<rparr>"
    by (simp add: computeReply_miss [OF miss] tr)
  then have first: "?first = (Inr \<lparr>reply = ''Szia!'', cached = False\<rparr>, snd ?first)"
    by (simp add: prod_eq_iff)
  have generated: "\<not> cached \<lparr>reply = ''Szia!'', cached = False\<rparr>" by simp
  have clock: "tClean (clockAt 5000) \<le> tCheck (clockAt 5000)"
    and within: "tCheck (clockAt 5000) - tStore (clockAt 1000) < CACHE_TTL"
    by (simp_all add: clockAt_def CACHE_TTL_def)
  note inst = cache_key_truncation [OF cat msg hist first generated clock within, of "Inl busyError"]
  have differ: "longMessage CHR ''x'' \<noteq> longMessage CHR ''y''"
    by (simp add: longMessage_def)
  from inst [THEN conjunct2] have "fst (computeReply (clockAt 5000) (Inl busyError)
          (longMessage CHR ''y'') (longHistory ''other'' CHR ''2'') ''sushi'' (snd ?first)) =
     Inr \<lparr>reply = ''Szia!'', cached = True\<rparr>"
    by simp
  with differ inst [THEN conjunct1] show ?thesis by simp
qed

subsection \<open>AnswerStreamer\<close>

lemma streamLoop_acc:
  "streamLoop parts (full, out) = (full @ concat parts, out @ fragments parts)"
  by (induction parts arbitrary: full out) (simp_all add: fragments_def)

lemma count_fragments_Done: "count_list (fragments parts) Done = 0"
  by (induction parts) (simp_all add: fragments_def)

lemma terminated_fragments_Done: "terminated (fragments parts @ [Done])"
  by (simp add: terminated_def count_fragments_Done)

lemma terminated_fragments_error: "terminated (fragments parts @ [ServerError, Done])"
  by (simp add: terminated_def count_fragments_Done)

lemma streamBody_hit:
  assumes "cache g (makeCacheKey msg history category) = Some c"
    and "tClean clk \<le> tCheck clk"
    and "tCheck clk - ts c < CACHE_TTL"
  shows "streamBody clk gs msg history category g =
           (\<lparr>thrown = None, written = [Delta (reply c) True, Done], ended = True\<rparr>,
            g\<lparr>cache := cleanupCache (tClean clk) (cache g)\<rparr>)"
proof -
  have "tClean clk - ts c \<le> CACHE_TTL" using assms(2,3) by simp
  with assms(1) have "cleanupCache (tClean clk) (cache g) (makeCacheKey msg history category) = Some c"
    by (rule cleanupCache_keeps)
  then show ?thesis using assms(3) by (simp add: streamBody_def Let_def)
qed

lemma streamBody_miss:
  assumes "cleanupCache (tClean clk) (cache g) (makeCacheKey msg history category) = None"
  shows "streamBody clk (Stream parts None) msg history category g =
           (\<lparr>thrown = None, written = fragments parts @ [Done], ended = True\<rparr>,
            g\<lparr>cache := (cleanupCache (tClean clk) (cache g))
                   (makeCacheKey msg history category \<mapsto>
                      \<lparr>reply = trim (concat parts), ts = tStore clk\<rparr>),
              generations := generations g + 1\<rparr>)"
    and "streamBody clk (Stream parts (Some e)) msg history category g =
           (\<lparr>thrown = Some e, written = fragments parts @ [ServerError, Done], ended = True\<rparr>,
            g\<lparr>cache := cleanupCache (tClean clk) (cache g), generations := generations g + 1\<rparr>)"
    and "streamBody clk (SetupFails e) msg history category g =
           (\<lparr>thrown = Some e, written = [ServerError, Done], ended = True\<rparr>,
            g\<lparr>cache := cleanupCache (tClean clk) (cache g), generations := generations g + 1\<rparr>)"
  using assms by (simp_all add: streamBody_def Let_def streamLoop_acc)

lemma streamBody_terminated:
  "terminated (written (fst (streamBody clk gs msg history category g))) \<and>
   ended (fst (streamBody clk gs msg history category g))"
  by (auto simp: streamBody_def Let_def streamLoop_acc terminated_def count_fragments_Done
      split: option.splits generation.splits)

lemma handleChatStream_admitted:
  assumes "msg \<noteq> []" and "admit clk (getClientKey clientId ip) g = (Inr (), g1)"
  shows "handleChatStream clk gs msg history category clientId ip g =
     (fst (streamBody clk gs msg history (normalizeCategory category) g1),
      (snd (streamBody clk gs msg history (normalizeCategory category) g1))
        \<lparr>inFlight := clearBusy (getClientKey clientId ip)
           (inFlight (snd (streamBody clk gs msg history (normalizeCategory category) g1)))\<rparr>)"
  using assms by (simp add: handleChatStream_def Let_def split_beta)

lemma admit_cache:
  assumes "admit clk key g = (r, g')"
  shows "cache g' = cache g"
  using assms
  by (auto simp: admit_def Let_def split: prod.splits sum.splits)

lemma concat_nonempty: "concat (filter (\<lambda>d. d \<noteq> []) parts) = concat parts"
  by (induction parts) simp_all

text \<open>
  Claim C9. For a request with a message that passes the guards: whatever the generation
  does, the handler ends the stream, and what it has written ends in the terminal event,
  which occurs exactly once. On a cache miss, a generation that yields its parts and ends
  makes the handler write one event per non-empty part, in order, and then the terminal
  event, and store under the request's key the concatenation of the written fragments,
  trimmed; a generation that throws after some parts makes it write the fragments, then
  the error marker, then the terminal event, store nothing and throw the error again; a
  failure before the first part gives the error marker and the terminal event. On a cache
  hit the handler writes the stored answer as one fragment flagged as cached and then the
  terminal event.
\<close>

theorem stream_events:
  assumes msg: "msg \<noteq> []"
    and adm: "admit clk (getClientKey clientId ip) g = (Inr (), g1)"
    and k: "k = makeCacheKey msg history (normalizeCategory category)"
    and clock: "tClean clk \<le> tCheck clk"
  shows "(\<forall>gs. terminated (written (fst (handleChatStream clk gs msg history category clientId ip g))) \<and>
               ended (fst (handleChatStream clk gs msg history category clientId ip g))) \<and>
         (cleanupCache (tClean clk) (cache g) k = None \<longrightarrow>
            (\<forall>parts.
               fst (handleChatStream clk (Stream parts None) msg history category clientId ip g) =
                 \<lparr>thrown = None, written = fragments parts @ [Done], ended = True\<rparr> \<and>
               cache (snd (handleChatStream clk (Stream parts None) msg history category
                             clientId ip g)) k =
                 Some \<lparr>reply = trim (concat (filter (\<lambda>d. d \<noteq> []) parts)), ts = tStore clk\<rparr>) \<and>
            (\<forall>parts e.
               fst (handleChatStream clk (Stream parts (Some e)) msg history category clientId ip g) =
                 \<lparr>thrown = Some e, written = fragments parts @ [ServerError, Done],
                   ended = True\<rparr> \<and>
               cache (snd (handleChatStream clk (Stream parts (Some e)) msg history category
                             clientId ip g)) k = None) \<and>
            (\<forall>e.
               fst (handleChatStream clk (SetupFails e) msg history category clientId ip g) =
                 \<lparr>thrown = Some e, written = [ServerError, Done], ended = True\<rparr>)) \<and>
         (\<forall>c gs. cache g k = Some c \<and> tCheck clk - ts c < CACHE_TTL \<longrightarrow>
            fst (handleChatStream clk gs msg history category clientId ip g) =
              \<lparr>thrown = None, written = [Delta (reply c) True, Done], ended = True\<rparr>)"
proof -
  note h = handleChatStream_admitted [OF msg adm]
  have cg: "cache g1 = cache g" using adm by (rule admit_cache)
  have always: "terminated (written (fst (handleChatStream clk gs msg history category clientId ip g))) \<and>
               ended (fst (handleChatStream clk gs msg history category clientId ip g))" for gs
    using streamBody_terminated [of clk gs msg history "normalizeCategory category" g1]
    by (simp add: h)
  have miss: "(\<forall>parts.
               fst (handleChatStream clk (Stream parts None) msg history category clientId ip g) =
                 \<lparr>thrown = None, written = fragments parts @ [Done], ended = True\<rparr> \<and>
               cache (snd (handleChatStream clk (Stream parts None) msg history category
                             clientId ip g)) k =
                 Some \<lparr>reply = trim (concat (filter (\<lambda>d. d \<noteq> []) parts)), ts = tStore clk\<rparr>) \<and>
            (\<forall>parts e.
               fst (handleChatStream clk (Stream parts (Some e)) msg history category clientId ip g) =
                 \<lparr>thrown = Some e, written = fragments parts @ [ServerError, Done],
                   ended = True\<rparr> \<and>
               cache (snd (handleChatStream clk (Stream parts (Some e)) msg history category
                             clientId ip g)) k = None) \<and>
            (\<forall>e.
               fst (handleChatStream clk (SetupFails e) msg history category clientId ip g) =
                 \<lparr>thrown = Some e, written = [ServerError, Done], ended = True\<rparr>)"
    if none: "cleanupCache (tClean clk) (cache g) k = None"
  proof -
    have none1: "cleanupCache (tClean clk) (cache g1)
        (makeCacheKey msg history (normalizeCategory category)) = None"
      using none by (simp add: cg k)
    show ?thesis
      using none by (simp add: h streamBody_miss [OF none1] concat_nonempty cg k)
  qed
  have hit: "fst (handleChatStream clk gs msg history category clientId ip g) =
              \<lparr>thrown = None, written = [Delta (reply c) True, Done], ended = True\<rparr>"
    if "cache g k = Some c" and "tCheck clk - ts c < CACHE_TTL" for c gs
  proof -
    have "cache g1 (makeCacheKey msg history (normalizeCategory category)) = Some c"
      using that(1) by (simp add: cg k)
    from streamBody_hit [OF this clock that(2)] show ?thesis by (simp add: h)
  qed
  show ?thesis
    apply (intro conjI allI impI)
    using always apply blast
    using always apply blast
    using miss apply blast
    using miss apply blast
    using miss apply blast
    using miss apply blast
    using miss apply blast
    using hit apply blast
    done
qed

theorem stream_events_witness:
  "fst (handleChatStream (clockAt 1000) (Stream [''Hel'', ''lo''] None) ''hello'' [] ''auto'' None
          ''10.0.0.7'' freshGlobals) =
     \<lparr>thrown = None, written = [Delta ''Hel'' False, Delta ''lo'' False, Done], ended = True\<rparr> \<and>
   cache (snd (handleChatStream (clockAt 1000) (Stream [''Hel'', ''lo''] None) ''hello'' [] ''auto''
                 None ''10.0.0.7'' freshGlobals)) ''auto::hello::'' =
     Some \<lparr>reply = ''Hello'', ts = 1900\<rparr> \<and>
   fst (handleChatStream (clockAt 1000) (Stream [''Hel'', []] (Some upstreamError)) ''hello'' []
          ''auto'' None ''10.0.0.7'' freshGlobals) =
     \<lparr>thrown = Some upstreamError, written = [Delta ''Hel'' False, ServerError, Done],
       ended = True\<rparr> \<and>
   fst (handleChatStream (clockAt 5000) (SetupFails upstreamError) ''hello'' [] ''auto'' None
          ''10.0.0.7'' cachedGlobals) =
     \<lparr>thrown = None, written = [Delta ''Szia!'' True, Done], ended = True\<rparr>"
proof -
  have key: "getClientKey None ''10.0.0.7'' = ''ip:10.0.0.7''"
    by (simp add: getClientKey_def)
  have msg: "''hello'' \<noteq> []" by simp
  have k: "''auto::hello::'' = makeCacheKey ''hello'' [] (normalizeCategory ''auto'')"
    by (simp add: makeCacheKey_def normalizeCategory_def VALID_CATEGORIES_def lastFour_def)
  have adm1: "admit (clockAt 1000) (getClientKey None ''10.0.0.7'') freshGlobals =
      (Inr (), snd (admit (clockAt 1000) (getClientKey None ''10.0.0.7'') freshGlobals))"
    by (simp add: key admit_def clockAt_def freshGlobals_def applyRateLimitOrThrow_def
        rateGet_def applySpamGuardOrThrow_def spamGet_def applyBusyGuardOrThrow_def gov_consts)
  have adm2: "admit (clockAt 5000) (getClientKey None ''10.0.0.7'') cachedGlobals =
      (Inr (), snd (admit (clockAt 5000) (getClientKey None ''10.0.0.7'') cachedGlobals))"
    by (simp add: key admit_def clockAt_def cachedGlobals_def freshGlobals_def
        applyRateLimitOrThrow_def rateGet_def applySpamGuardOrThrow_def spamGet_def
        applyBusyGuardOrThrow_def gov_consts)
  have clock1: "tClean (clockAt 1000) \<le> tCheck (clockAt 1000)"
    and clock2: "tClean (clockAt 5000) \<le> tCheck (clockAt 5000)"
    by (simp_all add: clockAt_def)
  have none: "cleanupCache (tClean (clockAt 1000)) (cache freshGlobals) ''auto::hello::'' = None"
    by (simp add: cleanupCache_def freshGlobals_def)
  have some: "cache cachedGlobals ''auto::hello::'' = Some \<lparr>reply = ''Szia!'', ts = 1000\<rparr> \<and>
      tCheck (clockAt 5000) - ts \<lparr>reply = ''Szia!'', ts = 1000\<rparr> < CACHE_TTL"
    by (simp add: cachedGlobals_def freshGlobals_def clockAt_def CACHE_TTL_def)
  have tr: "trim ''Hello'' = ''Hello''"
    by (simp add: trim_def isWhiteSpace_def)
  note miss = stream_events [OF msg adm1 k clock1, THEN conjunct2, THEN conjunct1, rule_format,
      OF none]
  note hit = stream_events [OF msg adm2 k clock2, THEN conjunct2, THEN conjunct2, rule_format,
      OF some]
  from miss [THEN conjunct1, rule_format, of "[''Hel'', ''lo'']"]
  have one: "fst (handleChatStream (clockAt 1000) (Stream [''Hel'', ''lo''] None) ''hello'' []
          ''auto'' None ''10.0.0.7'' freshGlobals) =
     \<lparr>thrown = None, written = [Delta ''Hel'' False, Delta ''lo'' False, Done], ended = True\<rparr> \<and>
   cache (snd (handleChatStream (clockAt 1000) (Stream [''Hel'', ''lo''] None) ''hello'' [] ''auto''
                 None ''10.0.0.7'' freshGlobals)) ''auto::hello::'' =
     Some \<lparr>reply = ''Hello'', ts = 1900\<rparr>"
    by (simp add: fragments_def tr clockAt_def)
  from miss [THEN conjunct2, THEN conjunct1, rule_format, of "[''Hel'', []]" upstreamError]
  have two: "fst (handleChatStream (clockAt 1000) (Stream [''Hel'', []] (Some upstreamError))
          ''hello'' [] ''auto'' None ''10.0.0.7'' freshGlobals) =
     \<lparr>thrown = Some upstreamError, written = [Delta ''Hel'' False, ServerError, Done],
       ended = True\<rparr>"
    by (simp add: fragments_def)
  from hit [of "SetupFails upstreamError"]
  have three: "fst (handleChatStream (clockAt 5000) (SetupFails upstreamError) ''hello'' []
          ''auto'' None ''10.0.0.7'' cachedGlobals) =
     \<lparr>thrown = None, written = [Delta ''Szia!'' True, Done], ended = True\<rparr>"
    by simp
  from one two three show ?thesis by simp
qed

subsection \<open>CorpusIndexer: chunking a section\<close>

lemma length_trim_le: "length (trim s) \<le> length s"
proof -
  have "length (trim s) = length (dropWhile isWhiteSpace (rev (dropWhile isWhiteSpace s)))"
    by (simp add: trim_def)
  also have "\<dots> \<le> length (rev (dropWhile isWhiteSpace s))"
    by (rule length_dropWhile_le)
  also have "\<dots> \<le> length s"
    by (simp add: length_dropWhile_le)
  finally show ?thesis .
qed

lemma trim_Nil [simp]: "trim [] = []"
  by (simp add: trim_def)

lemma trim_tight: "tightLine s \<Longrightarrow> trim s = s"
proof -
  assume t: "tightLine s"
  then have "dropWhile isWhiteSpace s = s"
    by (cases s) (simp_all add: tightLine_def)
  moreover have "dropWhile isWhiteSpace (rev s) = rev s"
    using t by (cases "rev s") (auto simp: tightLine_def hd_rev)
  ultimately show ?thesis by (simp add: trim_def)
qed

lemma splitLines_not_Nil [simp]: "splitLines s \<noteq> []"
  by (induction s rule: splitLines.induct) (auto split: list.splits)

lemma splitLines_LF [simp]: "splitLines (LF # rest) = [] # splitLines rest"
  by (cases rest) simp_all

lemma splitLines_CRLF [simp]: "splitLines (CR # LF # rest) = [] # splitLines rest"
  by (simp add: CR_def LF_def)

lemma splitLines_plain:
  assumes "LF \<notin> set l"
  shows "splitLines l = [l]"
  using assms
proof (induction l rule: splitLines.induct)
  case 1
  then show ?case by simp
next
  case (2 c)
  then show ?case by simp
next
  case (3 c d cs)
  then show ?case by auto
qed

lemma splitLines_line:
  assumes "LF \<notin> set l" and "l = [] \<or> last l \<noteq> CR"
  shows "splitLines (l @ LF # rest) = l # splitLines rest"
  using assms
proof (induction l)
  case Nil
  then show ?case by simp
next
  case (Cons c l)
  show ?case
  proof (cases l)
    case Nil
    with Cons.prems show ?thesis by simp
  next
    case (Cons d l')
    with Cons.prems Cons.IH show ?thesis by auto
  qed
qed

lemma tightLine_nextBuf:
  assumes "buf = [] \<or> tightLine buf" and "tightLine l"
  shows "tightLine (nextBuf buf l)"
  using assms by (auto simp: nextBuf_def tightLine_def)

lemma join_merge: "join sep (xs @ (a @ sep @ b) # ys) = join sep (xs @ a # b # ys)"
proof (induction xs)
  case Nil
  then show ?case by (cases ys) simp_all
next
  case (Cons x xs)
  then show ?case by (cases xs) simp_all
qed

lemma capped_flush:
  assumes "length buf \<le> MAX_EMBED_CHUNK_CHARS \<or> buf \<in> L"
  shows "capped L (trim buf)"
proof (cases "length buf \<le> MAX_EMBED_CHUNK_CHARS")
  case True
  with length_trim_le [of buf] show ?thesis by (simp add: capped_def)
next
  case False
  with assms have "buf \<in> L" and "MAX_EMBED_CHUNK_CHARS < length buf" by simp_all
  then show ?thesis unfolding capped_def by blast
qed

lemma chunkLoop_cap:
  assumes "set lines \<subseteq> L"
    and "length buf \<le> MAX_EMBED_CHUNK_CHARS \<or> buf \<in> L"
    and "\<forall>c \<in> set chunks. capped L c"
  shows "\<forall>c \<in> set (snd (chunkLoop lines buf chunks) @ [trim (fst (chunkLoop lines buf chunks))]).
           capped L c"
  using assms
proof (induction lines arbitrary: buf chunks)
  case Nil
  then show ?case by (simp add: capped_flush)
next
  case (Cons l lines)
  have sub: "set lines \<subseteq> L" and lin: "l \<in> L" using Cons.prems(1) by simp_all
  show ?case
  proof (cases "length (nextBuf buf l) > MAX_EMBED_CHUNK_CHARS \<and> buf \<noteq> []")
    case True
    have step: "chunkLoop (l # lines) buf chunks = chunkLoop lines l (chunks @ [trim buf])"
      using True by simp
    have b: "length l \<le> MAX_EMBED_CHUNK_CHARS \<or> l \<in> L" using lin by simp
    have c: "\<forall>c \<in> set (chunks @ [trim buf]). capped L c"
      using Cons.prems(3) capped_flush [OF Cons.prems(2)] by simp
    show ?thesis unfolding step by (rule Cons.IH [OF sub b c])
  next
    case False
    have step: "chunkLoop (l # lines) buf chunks = chunkLoop lines (nextBuf buf l) chunks"
      by (simp only: chunkLoop.simps False if_False)
    have b: "length (nextBuf buf l) \<le> MAX_EMBED_CHUNK_CHARS \<or> nextBuf buf l \<in> L"
    proof (cases "buf = []")
      case True
      then show ?thesis using lin by (simp add: nextBuf_def)
    next
      case False
      with \<open>\<not> (length (nextBuf buf l) > MAX_EMBED_CHUNK_CHARS \<and> buf \<noteq> [])\<close>
      show ?thesis by simp
    qed
    show ?thesis unfolding step by (rule Cons.IH [OF sub b Cons.prems(3)])
  qed
qed

lemma chunkLoop_join:
  assumes "\<forall>l \<in> set lines. tightLine l" and "buf = [] \<or> tightLine buf"
  shows "(fst (chunkLoop lines buf chunks) = [] \<or> tightLine (fst (chunkLoop lines buf chunks))) \<and>
         join [LF] (snd (chunkLoop lines buf chunks) @
                    (if fst (chunkLoop lines buf chunks) = [] then []
                     else [fst (chunkLoop lines buf chunks)])) =
         join [LF] (chunks @ (if buf = [] then [] else [buf]) @ lines)"
  using assms
proof (induction lines arbitrary: buf chunks)
  case Nil
  then show ?case by simp
next
  case (Cons l lines)
  have tl: "tightLine l" and rest: "\<forall>l \<in> set lines. tightLine l"
    using Cons.prems(1) by simp_all
  have lne: "l \<noteq> []" using tl by (simp add: tightLine_def)
  show ?case
  proof (cases "length (nextBuf buf l) > MAX_EMBED_CHUNK_CHARS \<and> buf \<noteq> []")
    case True
    then have tb: "trim buf = buf" using Cons.prems(2) by (simp add: trim_tight)
    have step: "chunkLoop (l # lines) buf chunks = chunkLoop lines l (chunks @ [buf])"
      using True by (simp add: tb)
    have target: "join [LF] ((chunks @ [buf]) @ (if l = [] then [] else [l]) @ lines) =
          join [LF] (chunks @ (if buf = [] then [] else [buf]) @ l # lines)"
      using True lne by simp
    show ?thesis
      unfolding step target [symmetric] by (rule Cons.IH [OF rest disjI2 [OF tl]])
  next
    case False
    have step: "chunkLoop (l # lines) buf chunks = chunkLoop lines (nextBuf buf l) chunks"
      by (simp only: chunkLoop.simps False if_False)
    have tn: "tightLine (nextBuf buf l)"
      using Cons.prems(2) tl by (rule tightLine_nextBuf)
    then have nne: "nextBuf buf l \<noteq> []" by (simp add: tightLine_def)
    have "join [LF] (chunks @ [nextBuf buf l] @ lines) =
          join [LF] (chunks @ (if buf = [] then [] else [buf]) @ l # lines)"
    proof (cases "buf = []")
      case True
      then show ?thesis by (simp add: nextBuf_def)
    next
      case False
      then show ?thesis
        using join_merge [of "[LF]" chunks buf l lines] by (simp add: nextBuf_def)
    qed
    then have target: "join [LF] (chunks @ (if nextBuf buf l = [] then [] else [nextBuf buf l]) @ lines) =
          join [LF] (chunks @ (if buf = [] then [] else [buf]) @ l # lines)"
      using nne by simp
    show ?thesis
      unfolding step target [symmetric] by (rule Cons.IH [OF rest disjI2 [OF tn]])
  qed
qed

lemma ink_dropWhile: "ink (dropWhile isWhiteSpace s) = ink s"
  by (induction s) (simp_all add: ink_def)

lemma ink_rev: "ink (rev s) = rev (ink s)"
  by (simp add: ink_def rev_filter)

lemma ink_trim: "ink (trim s) = ink s"
  by (simp add: trim_def ink_rev ink_dropWhile)

lemma ink_append: "ink (a @ b) = ink a @ ink b"
  by (simp add: ink_def)

lemma isWhiteSpace_LF_CR: "isWhiteSpace LF" "isWhiteSpace CR"
  by (simp_all add: isWhiteSpace_def LF_def CR_def)

lemma ink_nextBuf: "ink (nextBuf buf l) = ink buf @ ink l"
  using isWhiteSpace_LF_CR(1) by (simp add: nextBuf_def ink_def)

lemma chunkLoop_ink:
  "concat (map ink (snd (chunkLoop lines buf chunks))) @ ink (fst (chunkLoop lines buf chunks)) =
   concat (map ink chunks) @ ink buf @ concat (map ink lines)"
  by (induction lines arbitrary: buf chunks) (simp_all add: ink_nextBuf ink_trim)

lemma ink_splitLines: "concat (map ink (splitLines s)) = ink s"
proof (induction s rule: splitLines.induct)
  case 1
  then show ?case by (simp add: ink_def)
next
  case (2 c)
  then show ?case using isWhiteSpace_LF_CR by (simp add: ink_def)
next
  case (3 c d cs)
  then show ?case
    using isWhiteSpace_LF_CR by (auto simp: ink_def split: list.splits)
qed

lemma ink_concat: "ink (concat xs) = concat (map ink xs)"
  by (induction xs) (simp_all add: ink_append, simp add: ink_def)

lemma CR_neq_LF [simp]: "CR \<noteq> LF" "LF \<noteq> CR"
  by (simp_all add: CR_def LF_def)

lemma splitLines_line_CR:
  assumes "LF \<notin> set l" and "l = [] \<or> last l \<noteq> CR"
  shows "splitLines (l @ CR # LF # rest) = l # splitLines rest"
  using assms
proof (induction l)
  case Nil
  then show ?case by simp
next
  case (Cons c l)
  show ?case
  proof (cases l)
    case Nil
    with Cons.prems show ?thesis by (auto simp: CR_def LF_def)
  next
    case (Cons d l')
    with Cons.prems Cons.IH show ?thesis by auto
  qed
qed

lemma showNat_digit: "n < 10 \<Longrightarrow> showNat n = [''0123456789'' ! n]"
  by (subst showNat.simps) simp

lemma map_on_fst: "map (\<lambda>x. f (fst x)) ys = map f (map fst ys)"
  by (induction ys) simp_all

lemma map_on_snd: "map (\<lambda>x. f (snd x)) ys = map f (map snd ys)"
  by (induction ys) simp_all

lemma chunk_text_chunkSection: "map chunk_text (chunkSection key txt) = chunkTexts txt"
proof -
  have "map chunk_text (chunkSection key txt) =
        map (\<lambda>x. id (snd x)) (enumerate 0 (chunkTexts txt))"
    by (simp add: chunkSection_def split_beta comp_def)
  also have "\<dots> = map id (map snd (enumerate 0 (chunkTexts txt)))"
    by (rule map_on_snd)
  finally show ?thesis by simp
qed

lemma length_chunkSection: "length (chunkSection key txt) = length (chunkTexts txt)"
  by (simp add: chunkSection_def)

lemma chunk_id_chunkSection:
  "map chunk_id (chunkSection key txt) =
   map (\<lambda>i. key @ '':'' @ showNat (i + 1)) [0..<length (chunkSection key txt)]"
proof -
  have "map chunk_id (chunkSection key txt) =
        map (\<lambda>x. key @ '':'' @ showNat (fst x + 1)) (enumerate 0 (chunkTexts txt))"
    by (simp add: chunkSection_def split_beta comp_def)
  also have "\<dots> = map (\<lambda>i. key @ '':'' @ showNat (i + 1)) (map fst (enumerate 0 (chunkTexts txt)))"
    by (rule map_on_fst)
  finally show ?thesis by (simp add: length_chunkSection)
qed

lemma chunkTexts_subset:
  "set (chunkTexts txt) \<subseteq>
   set (snd (chunkLoop (splitLines txt) [] []) @ [trim (fst (chunkLoop (splitLines txt) [] []))])"
  by (auto simp: chunkTexts_def split_beta)

lemma chunkTexts_capped: "\<forall>c \<in> set (chunkTexts txt). capped (set (splitLines txt)) c"
proof -
  have "\<forall>c \<in> set (snd (chunkLoop (splitLines txt) [] []) @
                     [trim (fst (chunkLoop (splitLines txt) [] []))]).
          capped (set (splitLines txt)) c"
    by (rule chunkLoop_cap) simp_all
  with chunkTexts_subset [of "txt"] show ?thesis by blast
qed

lemma chunkTexts_ink: "ink (concat (chunkTexts txt)) = ink txt"
proof -
  let ?b = "fst (chunkLoop (splitLines txt) [] [])"
  let ?cs = "snd (chunkLoop (splitLines txt) [] [])"
  have "trim ?b = [] \<Longrightarrow> ink ?b = []"
    using ink_trim [of ?b] by (simp add: ink_def)
  then have "ink (concat (chunkTexts txt)) = concat (map ink ?cs) @ ink ?b"
    by (auto simp: chunkTexts_def split_beta ink_concat ink_trim)
  also have "\<dots> = concat (map ink (splitLines txt))"
    using chunkLoop_ink [of "splitLines txt" "[]" "[]"] by (simp add: ink_def)
  finally show ?thesis by (simp add: ink_splitLines)
qed

lemma tightLine_join:
  assumes "ls \<noteq> []" and "\<forall>l \<in> set ls. tightLine l"
  shows "tightLine (join [LF] ls)"
  using assms
proof (induction ls)
  case Nil
  then show ?case by simp
next
  case (Cons l ls)
  show ?case
  proof (cases ls)
    case Nil
    with Cons.prems show ?thesis by simp
  next
    case (Cons m ms)
    with Cons.prems Cons.IH have "tightLine (join [LF] (m # ms))" and "tightLine l" by simp_all
    with Cons show ?thesis by (auto simp: tightLine_def)
  qed
qed

lemma chunkTexts_join:
  assumes "\<forall>l \<in> set (splitLines txt). tightLine l" and "join [LF] (splitLines txt) = txt"
  shows "join [LF] (chunkTexts txt) = trim txt"
proof -
  let ?b = "fst (chunkLoop (splitLines txt) [] [])"
  let ?cs = "snd (chunkLoop (splitLines txt) [] [])"
  from chunkLoop_join [OF assms(1), of "[]" "[]"]
  have b: "?b = [] \<or> tightLine ?b"
    and j: "join [LF] (?cs @ (if ?b = [] then [] else [?b])) = join [LF] (splitLines txt)"
    by simp_all
  have "chunkTexts txt = ?cs @ (if ?b = [] then [] else [?b])"
  proof (cases "?b = []")
    case True
    then show ?thesis by (simp add: chunkTexts_def split_beta)
  next
    case False
    with b have t: "tightLine ?b" by simp
    then have "trim ?b = ?b" by (rule trim_tight)
    with False show ?thesis by (simp add: chunkTexts_def split_beta)
  qed
  with j assms(2) have "join [LF] (chunkTexts txt) = txt" by simp
  moreover have "tightLine txt"
    using tightLine_join [OF splitLines_not_Nil assms(1)] assms(2) by simp
  ultimately show ?thesis by (simp add: trim_tight)
qed

text \<open>
  Claim C6, as stated, fails on a section whose first line is longer than the budget and
  whose lines are separated by carriage return and line feed: the first chunk has 1401
  characters, and the chunks joined by line feeds are not the trimmed text.
\<close>

theorem chunkSection_counterexample:
  "map chunk_text (chunkSection ''intro'' oversizedSection) = [replicate 1401 CHR ''a'', ''b''] \<and>
   \<not> length (replicate 1401 CHR ''a'') \<le> MAX_EMBED_CHUNK_CHARS \<and>
   join [LF] [replicate 1401 CHR ''a'', ''b''] \<noteq> trim oversizedSection"
proof -
  have a: "CHR ''a'' \<noteq> LF" "CHR ''a'' \<noteq> CR" "CHR ''b'' \<noteq> LF" "\<not> isWhiteSpace CHR ''a''"
    "\<not> isWhiteSpace CHR ''b''"
    by (simp_all add: LF_def CR_def isWhiteSpace_def)
  have lines: "splitLines oversizedSection = [replicate 1401 CHR ''a'', ''b'']"
    unfolding oversizedSection_def
    using a by (simp add: splitLines_line_CR splitLines_plain)
  have t1: "trim (replicate 1401 CHR ''a'') = replicate 1401 CHR ''a''"
    using a by (intro trim_tight) (simp add: tightLine_def)
  have t2: "trim ''b'' = ''b''"
    using a by (intro trim_tight) (simp add: tightLine_def)
  have texts: "chunkTexts oversizedSection = [replicate 1401 CHR ''a'', ''b'']"
    by (simp add: chunkTexts_def lines nextBuf_def MAX_EMBED_CHUNK_CHARS_def t1 t2)
  have t3: "trim oversizedSection = oversizedSection"
    using a by (intro trim_tight) (simp add: tightLine_def oversizedSection_def)
  show ?thesis
    unfolding chunk_text_chunkSection texts t3
    by (simp add: oversizedSection_def MAX_EMBED_CHUNK_CHARS_def)
qed

text \<open>
  Claim C6, amended. The chunks of a section are numbered \<open>key:1\<close>, \<open>key:2\<close>, ... in the
  order of the text. A chunk exceeds the budget only when it is a single line of the
  section, trimmed, that exceeds the budget itself; so no chunk exceeds it when no line
  does. The characters of the chunks that are not white space are, in order, those of the
  section. When the lines of the section are separated by line feeds alone and no line is
  empty or begins or ends with white space, the chunks joined by line feeds are the
  trimmed text of the section.
\<close>

theorem chunkSection_cap_and_roundtrip:
  "map chunk_id (chunkSection key txt) =
     map (\<lambda>i. key @ '':'' @ showNat (i + 1)) [0..<length (chunkSection key txt)] \<and>
   (\<forall>c \<in> set (chunkSection key txt). capped (set (splitLines txt)) (chunk_text c)) \<and>
   ((\<forall>l \<in> set (splitLines txt). length l \<le> MAX_EMBED_CHUNK_CHARS) \<longrightarrow>
      (\<forall>c \<in> set (chunkSection key txt). length (chunk_text c) \<le> MAX_EMBED_CHUNK_CHARS)) \<and>
   ink (concat (map chunk_text (chunkSection key txt))) = ink txt \<and>
   ((\<forall>l \<in> set (splitLines txt). tightLine l) \<and> join [LF] (splitLines txt) = txt \<longrightarrow>
      join [LF] (map chunk_text (chunkSection key txt)) = trim txt)"
proof -
  have texts: "chunk_text c \<in> set (chunkTexts txt)" if "c \<in> set (chunkSection key txt)" for c
  proof -
    from that have "chunk_text c \<in> set (map chunk_text (chunkSection key txt))" by simp
    then show ?thesis by (simp only: chunk_text_chunkSection)
  qed
  have cap: "capped (set (splitLines txt)) (chunk_text c)" if "c \<in> set (chunkSection key txt)" for c
    using chunkTexts_capped texts [OF that] by blast
  have small: "length (chunk_text c) \<le> MAX_EMBED_CHUNK_CHARS"
    if "\<forall>l \<in> set (splitLines txt). length l \<le> MAX_EMBED_CHUNK_CHARS"
      and "c \<in> set (chunkSection key txt)" for c
    using cap [OF that(2)] that(1) unfolding capped_def by fastforce
  have round: "join [LF] (map chunk_text (chunkSection key txt)) = trim txt"
    if "\<forall>l \<in> set (splitLines txt). tightLine l" and "join [LF] (splitLines txt) = txt"
    using chunkTexts_join [OF that] by (simp only: chunk_text_chunkSection)
  have inked: "ink (concat (map chunk_text (chunkSection key txt))) = ink txt"
    by (simp only: chunk_text_chunkSection chunkTexts_ink)
  show ?thesis
    using chunk_id_chunkSection cap small round inked by blast
qed

theorem chunkSection_cap_and_roundtrip_witness:
  "map chunk_text (chunkSection ''meze'' twoChunkSection) = [replicate 1400 CHR ''a'', ''b''] \<and>
   map chunk_id (chunkSection ''meze'' twoChunkSection) = [''meze:1'', ''meze:2''] \<and>
   list_all (\<lambda>c. length (chunk_text c) \<le> MAX_EMBED_CHUNK_CHARS) (chunkSection ''meze'' twoChunkSection) \<and>
   join [LF] (map chunk_text (chunkSection ''meze'' twoChunkSection)) = trim twoChunkSection"
proof -
  have a: "CHR ''a'' \<noteq> LF" "CHR ''a'' \<noteq> CR" "CHR ''b'' \<noteq> LF" "\<not> isWhiteSpace CHR ''a''"
    "\<not> isWhiteSpace CHR ''b''"
    by (simp_all add: LF_def CR_def isWhiteSpace_def)
  have lines: "splitLines twoChunkSection = [replicate 1400 CHR ''a'', ''b'']"
    unfolding twoChunkSection_def
    using a by (simp add: splitLines_line splitLines_plain)
  have tight: "\<forall>l \<in> set (splitLines twoChunkSection). tightLine l"
    using a by (simp add: lines tightLine_def)
  have sep: "join [LF] (splitLines twoChunkSection) = twoChunkSection"
    unfolding lines by (simp add: twoChunkSection_def)
  have short: "\<forall>l \<in> set (splitLines twoChunkSection). length l \<le> MAX_EMBED_CHUNK_CHARS"
    by (simp add: lines MAX_EMBED_CHUNK_CHARS_def)
  have t1: "trim (replicate 1400 CHR ''a'') = replicate 1400 CHR ''a''"
    using a by (intro trim_tight) (simp add: tightLine_def)
  have t2: "trim ''b'' = ''b''"
    using a by (intro trim_tight) (simp add: tightLine_def)
  have texts: "chunkTexts twoChunkSection = [replicate 1400 CHR ''a'', ''b'']"
    by (simp add: chunkTexts_def lines nextBuf_def MAX_EMBED_CHUNK_CHARS_def t1 t2)
  note inst = chunkSection_cap_and_roundtrip [of "''meze''" twoChunkSection]
  from inst have ids: "map chunk_id (chunkSection ''meze'' twoChunkSection) =
     map (\<lambda>i. ''meze'' @ '':'' @ showNat (i + 1)) [0..<length (chunkSection ''meze'' twoChunkSection)]"
    by (rule conjunct1)
  have len: "length (chunkSection ''meze'' twoChunkSection) = 2"
    by (simp add: length_chunkSection texts)
  have upt2: "[0..<2] = [0, Suc 0]"
    by (simp add: upt_rec)
  have ids': "map chunk_id (chunkSection ''meze'' twoChunkSection) = [''meze:1'', ''meze:2'']"
    unfolding ids len upt2 by (simp add: showNat_digit)
  from inst [THEN conjunct2, THEN conjunct2, THEN conjunct1, THEN mp, OF short]
  have caps: "list_all (\<lambda>c. length (chunk_text c) \<le> MAX_EMBED_CHUNK_CHARS)
      (chunkSection ''meze'' twoChunkSection)"
    by (simp add: list_all_iff)
  from inst [THEN conjunct2, THEN conjunct2, THEN conjunct2, THEN conjunct2, THEN mp,
      OF conjI [OF tight sep]]
  have round: "join [LF] (map chunk_text (chunkSection ''meze'' twoChunkSection)) =
      trim twoChunkSection" .
  show ?thesis
    using ids' caps round by (simp add: chunk_text_chunkSection texts)
qed

subsection \<open>Numbers\<close>

lemma roundEven_int [simp]: "roundEven (of_int k) = k"
  by (simp add: roundEven_def)

lemma roundEven_near:
  assumes "\<bar>y - of_int k\<bar> < 1 / 2"
  shows "roundEven y = k"
proof -
  consider "\<lfloor>y\<rfloor> = k" "y - of_int k < 1 / 2" | "\<lfloor>y\<rfloor> = k - 1" "1 / 2 < y - of_int (k - 1)"
  proof -
    have "of_int k - 1 / 2 < y" "y < of_int k + 1 / 2" using assms by linarith+
    then have "k - 1 \<le> \<lfloor>y\<rfloor>" "\<lfloor>y\<rfloor> \<le> k" by linarith+
    then have "\<lfloor>y\<rfloor> = k \<or> \<lfloor>y\<rfloor> = k - 1" by linarith
    then show ?thesis
    proof
      assume "\<lfloor>y\<rfloor> = k"
      moreover have "y - of_int k < 1 / 2" using \<open>y < of_int k + 1 / 2\<close> by simp
      ultimately show ?thesis using that by blast
    next
      assume "\<lfloor>y\<rfloor> = k - 1"
      moreover have "1 / 2 < y - of_int (k - 1)" using \<open>of_int k - 1 / 2 < y\<close> by simp
      ultimately show ?thesis using that by blast
    qed
  qed
  then show ?thesis
  proof cases
    case 1
    then show ?thesis by (simp add: roundEven_def)
  next
    case 2
    then show ?thesis by (simp add: roundEven_def)
  qed
qed

lemma roundEven_error: "\<bar>of_int (roundEven y) - y\<bar> \<le> 1 / 2"
proof -
  have "of_int \<lfloor>y\<rfloor> \<le> y" "y < of_int \<lfloor>y\<rfloor> + 1" by linarith+
  then show ?thesis unfolding roundEven_def by (auto simp: abs_le_iff)
qed

lemma roundEven_ge_1: "1 \<le> y \<Longrightarrow> 1 \<le> roundEven y"
proof -
  assume "1 \<le> y"
  then have "1 \<le> \<lfloor>y\<rfloor>" by linarith
  then show ?thesis unfolding roundEven_def by auto
qed

lemma roundEven_nonneg: "0 \<le> y \<Longrightarrow> 0 \<le> roundEven y"
proof -
  assume "0 \<le> y"
  then have "0 \<le> \<lfloor>y\<rfloor>" by linarith
  then show ?thesis unfolding roundEven_def by auto
qed

lemma floor_log2:
  assumes "2 powi e \<le> m" and "m < 2 powi (e + 1)"
  shows "\<lfloor>log 2 m\<rfloor> = e"
proof -
  have pos: "0 < m" using assms(1) by (smt (verit) zero_less_power_int)
  have "2 powr real_of_int e = 2 powi e" "2 powr real_of_int (e + 1) = 2 powi (e + 1)"
    by (rule powr_real_of_int'; simp)+
  then show ?thesis
    using assms unfolding floor_log_eq_powr_iff [OF pos, of 2 e, simplified] by simp
qed

lemma floor_log2_less:
  assumes "0 < m" and "m < 2 powi e"
  shows "\<lfloor>log 2 m\<rfloor> < e"
proof (rule ccontr)
  assume "\<not> \<lfloor>log 2 m\<rfloor> < e"
  then have "real_of_int e \<le> log 2 m" by linarith
  then have "2 powr (real_of_int e) \<le> m"
    using assms(1) by (simp add: le_log_iff)
  moreover have "2 powr real_of_int e = 2 powi e" by (rule powr_real_of_int'; simp)
  ultimately show False using assms(2) by simp
qed

lemma ulp_normal:
  assumes "2 powi e \<le> m" and "m < 2 powi (e + 1)" and "- 1022 \<le> e"
  shows "ulp m = 2 powi (e - 52)"
  using floor_log2 [OF assms(1,2)] assms(3) by (simp add: ulp_def max_def)

lemma ulp_subnormal:
  assumes "0 < m" and "m < 2 powi (- 1022)"
  shows "ulp m = 2 powi (- 1074)"
  using floor_log2_less [OF assms] by (simp add: ulp_def max_def)

lemma roundMagnitude_normal:
  assumes "2 powi e \<le> m" and "m < 2 powi (e + 1)" and "- 1022 \<le> e"
  shows "roundMagnitude m = of_int (roundEven (m / 2 powi (e - 52))) * 2 powi (e - 52)"
proof -
  have "0 < m" using assms(1) by (smt (verit) zero_less_power_int)
  then show ?thesis by (simp add: roundMagnitude_def ulp_normal [OF assms])
qed

lemma log2_bracket:
  assumes "0 < m"
  shows "2 powi \<lfloor>log 2 m\<rfloor> \<le> m" and "m < 2 powi (\<lfloor>log 2 m\<rfloor> + 1)"
proof -
  have "2 powr real_of_int \<lfloor>log 2 m\<rfloor> = 2 powi \<lfloor>log 2 m\<rfloor>"
       "2 powr real_of_int (\<lfloor>log 2 m\<rfloor> + 1) = 2 powi (\<lfloor>log 2 m\<rfloor> + 1)"
    by (rule powr_real_of_int'; simp)+
  moreover have "2 powr real_of_int \<lfloor>log 2 m\<rfloor> \<le> m \<and> m < 2 powr real_of_int (\<lfloor>log 2 m\<rfloor> + 1)"
    using floor_log_eq_powr_iff [OF assms, of 2 "\<lfloor>log 2 m\<rfloor>"] by simp
  ultimately show "2 powi \<lfloor>log 2 m\<rfloor> \<le> m" and "m < 2 powi (\<lfloor>log 2 m\<rfloor> + 1)" by simp_all
qed

lemma ulp_pos: "0 < ulp m"
  by (simp add: ulp_def)

lemma ulp_grid: "\<exists>j::nat. ulp m = 2 ^ j * 2 powi (- 1074)"
proof -
  define e where "e = max \<lfloor>log 2 m\<rfloor> (- 1022)"
  have e: "- 1022 \<le> e" by (simp add: e_def)
  have "(2::real) powi (e - 52) = 2 powi (int (nat (e + 1022)) + (- 1074))"
    using e by simp
  also have "\<dots> = 2 powi (int (nat (e + 1022))) * 2 powi (- 1074)"
    by (rule power_int_add) simp
  also have "\<dots> = 2 ^ nat (e + 1022) * 2 powi (- 1074)"
    by (simp only: power_int_of_nat)
  finally show ?thesis unfolding ulp_def e_def [symmetric] by blast
qed

lemma roundMagnitude_nonneg: "0 \<le> m \<Longrightarrow> 0 \<le> roundMagnitude m"
  using ulp_pos [of m]
  by (simp add: roundMagnitude_def roundEven_nonneg less_imp_le)

lemma roundMagnitude_error:
  assumes "2 powi (- 1022) \<le> m"
  shows "\<bar>roundMagnitude m - m\<bar> \<le> m / 2 ^ 53"
proof -
  have pos: "0 < m" using assms by (smt (verit) zero_less_power_int)
  define e where "e = \<lfloor>log 2 m\<rfloor>"
  note br = log2_bracket [OF pos, folded e_def]
  have e: "- 1022 \<le> e"
  proof (rule ccontr)
    assume "\<not> - 1022 \<le> e"
    then have "e + 1 \<le> - 1022" by simp
    then have "(2::real) powi (e + 1) \<le> 2 powi (- 1022)" by (rule power_int_increasing) simp
    with br(2) assms show False by simp
  qed
  define u :: real where "u = 2 powi (e - 52)"
  have u: "0 < u" by (simp add: u_def)
  have rm: "roundMagnitude m = of_int (roundEven (m / u)) * u"
    unfolding u_def using br e by (rule roundMagnitude_normal)
  have "roundMagnitude m - m = (of_int (roundEven (m / u)) - m / u) * u"
    using u by (simp add: rm field_simps)
  then have "\<bar>roundMagnitude m - m\<bar> = \<bar>of_int (roundEven (m / u)) - m / u\<bar> * u"
    using u by (simp add: abs_mult)
  also have "\<dots> \<le> (1 / 2) * u"
    using roundEven_error [of "m / u"] u by (intro mult_right_mono) simp_all
  also have "(1 / 2) * u = 2 powi e / 2 ^ 53"
  proof -
    have "(2::real) powi (e - 52) = 2 powi (e + (- 52))" by simp
    also have "\<dots> = 2 powi e * 2 powi (- 52)" by (rule power_int_add) simp
    finally have "u = 2 powi e * 2 powi (- 52)" by (simp only: u_def)
    then show ?thesis by (simp add: power_int_minus field_simps)
  qed
  also have "\<dots> \<le> m / 2 ^ 53" using br(1) by (simp add: divide_right_mono)
  finally show ?thesis .
qed

lemma roundMagnitude_grid: "\<exists>k::int. roundMagnitude m = of_int k * 2 powi (- 1074)"
proof (cases "m = 0")
  case True
  then have "roundMagnitude m = of_int 0 * 2 powi (- 1074)" by (simp add: roundMagnitude_def)
  then show ?thesis by blast
next
  case False
  from ulp_grid [of m] obtain j :: nat where j: "ulp m = 2 ^ j * 2 powi (- 1074)" by blast
  have "roundMagnitude m = of_int (roundEven (m / ulp m) * 2 ^ j) * 2 powi (- 1074)"
    using False by (simp add: roundMagnitude_def j)
  then show ?thesis by blast
qed

lemma roundMagnitude_pos:
  assumes "2 powi (- 1074) \<le> m"
  shows "0 < roundMagnitude m"
proof -
  have pos: "0 < m" using assms by (smt (verit) zero_less_power_int)
  have "ulp m \<le> m"
  proof (cases "m < 2 powi (- 1022)")
    case True
    then show ?thesis using ulp_subnormal [OF pos] assms by simp
  next
    case False
    have "ulp m = 2 powi (\<lfloor>log 2 m\<rfloor> - 52) \<or> ulp m = 2 powi (- 1022 - 52)"
      by (simp add: ulp_def max_def)
    moreover have "(2::real) powi (\<lfloor>log 2 m\<rfloor> - 52) \<le> 2 powi \<lfloor>log 2 m\<rfloor>"
      by (rule power_int_increasing) simp_all
    moreover have "(2::real) powi (- 1022 - 52) \<le> 2 powi (- 1022)"
      by (rule power_int_increasing) simp_all
    ultimately show ?thesis using log2_bracket(1) [OF pos] False by linarith
  qed
  then have "1 \<le> m / ulp m" using ulp_pos [of m] by (simp add: field_simps)
  then have "1 \<le> roundEven (m / ulp m)" by (rule roundEven_ge_1)
  then have "0 < real_of_int (roundEven (m / ulp m))" by simp
  then show ?thesis using pos ulp_pos [of m] by (simp add: roundMagnitude_def)
qed

lemma roundMagnitude_exact:
  assumes "2 powi e \<le> m" and "m < 2 powi (e + 1)" and "- 1022 \<le> e"
    and "m = of_int k * 2 powi (e - 52)"
  shows "roundMagnitude m = m"
proof -
  have "m / 2 powi (e - 52) = of_int k" using assms(4) by simp
  then show ?thesis
    using roundMagnitude_normal [OF assms(1-3)] assms(4) by simp
qed

lemma roundMagnitude_near:
  assumes "2 powi e \<le> m" and "m < 2 powi (e + 1)" and "- 1022 \<le> e"
    and "\<bar>m / 2 powi (e - 52) - of_int k\<bar> < 1 / 2"
  shows "roundMagnitude m = of_int k * 2 powi (e - 52)"
  using roundMagnitude_normal [OF assms(1-3)] roundEven_near [OF assms(4)] by simp

lemma roundMagnitude_nat:
  assumes "0 < n" and "n < 2 ^ 53"
  shows "roundMagnitude (real n) = real n"
proof -
  define e where "e = \<lfloor>log 2 (real n)\<rfloor>"
  have pos: "0 < real n" using assms(1) by simp
  note br = log2_bracket [OF pos, folded e_def]
  have one: "1 \<le> real n" using assms(1) by simp
  have e0: "0 \<le> e"
  proof (rule ccontr)
    assume "\<not> 0 \<le> e"
    then have "e + 1 \<le> 0" by simp
    then have "(2::real) powi (e + 1) \<le> 2 powi 0" by (rule power_int_increasing) simp
    then have "(2::real) powi (e + 1) \<le> 1" by simp
    with br(2) one show False by linarith
  qed
  have lt: "real n < 2 powi 53"
  proof -
    have "real n < real (2 ^ 53)" using assms(2) by (simp only: of_nat_less_iff)
    also have "real (2 ^ 53) = 2 ^ 53" by (simp only: of_nat_power of_nat_numeral)
    also have "(2::real) ^ 53 = 2 powi 53" by (simp only: power_int_numeral)
    finally show ?thesis .
  qed
  have e52: "e \<le> 52"
  proof (rule ccontr)
    assume "\<not> e \<le> 52"
    then have "53 \<le> e" by simp
    then have "(2::real) powi 53 \<le> 2 powi e" by (rule power_int_increasing) simp
    with lt br(1) show False by linarith
  qed
  define j where "j = nat (52 - e)"
  have "e - 52 = - int j" using e52 by (simp add: j_def)
  then have "(2::real) powi (e - 52) = 2 powi (- int j)" by (simp only:)
  also have "\<dots> = inverse (2 ^ j)"
    by (simp only: power_int_minus power_int_of_nat)
  finally have u: "(2::real) powi (e - 52) = inverse (2 ^ j)" .
  have "real n = of_int (int n * 2 ^ j) * 2 powi (e - 52)"
    unfolding u by simp
  then show ?thesis
    using br e0 by (intro roundMagnitude_exact [of e "real n" "int n * 2 ^ j"]) simp_all
qed


lemma not_huge:
  assumes "x \<le> 2 powi e" and "e \<le> 1023"
  shows "\<not> huge \<le> x"
proof -
  have "(2::real) powi e \<le> 2 powi 1023" using assms(2) by (rule power_int_increasing) simp
  also have "(2::real) powi 1023 = 2 ^ 1023" by (simp only: power_int_numeral)
  also have "(2::real) ^ 1023 < 2 ^ 1024" by (rule power_strict_increasing) simp_all
  finally show ?thesis using assms(1) unfolding huge_def by linarith
qed

lemma rounded_near:
  assumes "2 powi e \<le> m" and "m < 2 powi (e + 1)" and "- 1022 \<le> e" and "e \<le> 1022"
    and "\<bar>m / 2 powi (e - 52) - of_int k\<bar> < 1 / 2"
  shows "rounded s m = Number s (of_int k * 2 powi (e - 52))"
proof -
  define u :: real where "u = 2 powi (e - 52)"
  have u: "0 < u" by (simp add: u_def)
  have rm: "roundMagnitude m = of_int k * u"
    unfolding u_def using assms(1,2,3,5) by (rule roundMagnitude_near)
  have "e + 1 = e - 52 + 53" by simp
  then have e1: "(2::real) powi (e + 1) = 2 powi (e - 52 + 53)" by (simp only:)
  have "(2::real) powi (e - 52 + 53) = 2 powi (e - 52) * 2 powi 53"
    by (rule power_int_add) simp
  then have up: "(2::real) powi (e + 1) = u * 2 ^ 53"
    unfolding e1 u_def by (simp only: power_int_numeral)
  have "m / u < 2 ^ 53" using assms(2) u unfolding up by (simp add: pos_divide_less_eq mult.commute)
  then have "real_of_int k < 2 ^ 53 + 1 / 2" using assms(5) unfolding u_def [symmetric] by linarith
  then have "real_of_int k < real_of_int (2 ^ 53 + 1)" by simp
  then have "k < 2 ^ 53 + 1" by (simp only: of_int_less_iff)
  then have "k \<le> 2 ^ 53" by simp
  then have "real_of_int k \<le> real_of_int (2 ^ 53)" by (simp only: of_int_le_iff)
  then have "real_of_int k \<le> 2 ^ 53" by simp
  then have "of_int k * u \<le> 2 ^ 53 * u" using u by (simp only: mult_le_cancel_right_pos)
  then have "of_int k * u \<le> 2 powi (e + 1)" unfolding up by (simp add: mult.commute)
  moreover have "e + 1 \<le> 1023" using assms(4) by simp
  ultimately have "\<not> huge \<le> of_int k * u" by (rule not_huge)
  then show ?thesis unfolding rounded_def rm u_def by simp
qed

lemma rounded_nat:
  assumes "0 < n" and "n < 2 ^ 53"
  shows "rounded s (real n) = Number s (real n)"
proof -
  have "real n < real (2 ^ 53)" using assms(2) by (simp only: of_nat_less_iff)
  also have "real (2 ^ 53) = 2 ^ 53" by (simp only: of_nat_power of_nat_numeral)
  also have "(2::real) ^ 53 = 2 powi 53" by (simp only: power_int_numeral)
  finally have "real n \<le> 2 powi 53" by simp
  then have "\<not> huge \<le> real n" by (rule not_huge) simp
  then show ?thesis unfolding rounded_def roundMagnitude_nat [OF assms] by simp
qed

lemma rounded_sqrt:
  assumes "(2 powi e)\<^sup>2 \<le> x" and "x < (2 powi (e + 1))\<^sup>2" and "- 1022 \<le> e" and "e \<le> 1022"
    and "1 \<le> k"
    and "((of_int k - 1 / 2) * 2 powi (e - 52))\<^sup>2 < x"
    and "x < ((of_int k + 1 / 2) * 2 powi (e - 52))\<^sup>2"
  shows "rounded s (sqrt x) = Number s (of_int k * 2 powi (e - 52))"
proof -
  define u :: real where "u = 2 powi (e - 52)"
  have u: "0 < u" by (simp add: u_def)
  have k: "0 \<le> (of_int k + 1 / 2) * u"
    using assms(5) u by simp
  have br: "2 powi e \<le> sqrt x" "sqrt x < 2 powi (e + 1)"
  proof -
    show "2 powi e \<le> sqrt x" using assms(1) by (simp add: real_le_rsqrt)
    show "sqrt x < 2 powi (e + 1)" using assms(2) by (intro real_less_lsqrt) simp_all
  qed
  have lo: "(of_int k - 1 / 2) * u < sqrt x"
    using assms(6) unfolding u_def [symmetric] by (rule real_less_rsqrt)
  have hi: "sqrt x < (of_int k + 1 / 2) * u"
    using assms(7) k unfolding u_def [symmetric] by (intro real_less_lsqrt) simp_all
  have "of_int k - 1 / 2 < sqrt x / u" "sqrt x / u < of_int k + 1 / 2"
    using lo hi u by (simp_all add: pos_less_divide_eq pos_divide_less_eq)
  then have "\<bar>sqrt x / u - of_int k\<bar> < 1 / 2" by linarith
  then show ?thesis
    unfolding u_def by (rule rounded_near [OF br assms(3,4)])
qed

lemma huge_pos: "0 < huge"
  by (simp add: huge_def)

lemma onGrid_roundMagnitude: "onGrid (roundMagnitude m)"
  unfolding onGrid_def by (rule roundMagnitude_grid)

lemma rounded_proper: "0 \<le> m \<Longrightarrow> proper (rounded s m)"
  by (simp add: rounded_def roundMagnitude_nonneg onGrid_roundMagnitude not_le)

lemma proper_nonnegMag: "proper x \<Longrightarrow> nonnegMag x"
  by (cases x) simp_all

lemma add_proper: "proper (add_d x y)"
proof (cases x)
  case xn: (Number s m)
  show ?thesis
  proof (cases y)
    case (Number t n)
    have "proper (Number (s \<and> t) 0)" by (simp add: huge_pos onGrid_def)
    then show ?thesis using xn Number by (simp add: rounded_proper)
  qed (simp_all add: xn)
next
  case xi: (Infinity s)
  show ?thesis by (cases y) (simp_all add: xi)
qed simp

lemma sqrt_d_nonnegMag: "nonnegMag x \<Longrightarrow> nonnegMag (sqrt_d x)"
proof (cases x)
  case (Number s m)
  assume "nonnegMag x"
  then have "0 \<le> sqrt m" using Number by simp
  then have "proper (rounded False (sqrt m))" by (rule rounded_proper)
  then show ?thesis using Number by (simp add: proper_nonnegMag)
qed simp_all

lemma mul_nonnegMag: "nonnegMag x \<Longrightarrow> nonnegMag y \<Longrightarrow> nonnegMag (mul_d x y)"
proof (cases x)
  case xn: (Number s m)
  assume x: "nonnegMag x" and y: "nonnegMag y"
  show ?thesis
  proof (cases y)
    case (Number t n)
    then have "0 \<le> m * n" using x y xn by simp
    then have "proper (rounded (s \<noteq> t) (m * n))" by (rule rounded_proper)
    then show ?thesis using xn Number by (simp add: proper_nonnegMag)
  qed (simp_all add: xn)
next
  case xi: (Infinity s)
  show ?thesis by (cases y) (simp_all add: xi)
qed simp

lemma div_d_proper: "nonnegMag x \<Longrightarrow> nonnegMag y \<Longrightarrow> proper (div_d x y)"
proof (cases x)
  case xn: (Number s m)
  assume x: "nonnegMag x" and y: "nonnegMag y"
  show ?thesis
  proof (cases y)
    case (Number t n)
    then have "0 \<le> m / n" using x y xn by simp
    then have "proper (rounded (s \<noteq> t) (m / n))" by (rule rounded_proper)
    then show ?thesis using xn Number by simp
  next
    case (Infinity t)
    then show ?thesis using xn by (simp add: huge_pos onGrid_def)
  qed (simp_all add: xn)
next
  case xi: (Infinity s)
  show ?thesis by (cases y) (simp_all add: xi)
qed simp

lemma orOne_nonnegMag: "nonnegMag x \<Longrightarrow> nonnegMag (orOne x)"
  by (simp add: orOne_def)

lemma cosLoop_proper:
  assumes "proper d" and "proper na" and "proper nb"
    and "cosLoop a b js (d, na, nb) = (d', na', nb')"
  shows "proper d' \<and> proper na' \<and> proper nb'"
  using assms
proof (induction js arbitrary: d na nb)
  case Nil
  then show ?case by simp
next
  case (Cons i js)
  from Cons.prems(4) have "cosLoop a b js
       (add_d d (mul_d (item a i) (item b i)),
        add_d na (mul_d (item a i) (item a i)),
        add_d nb (mul_d (item b i) (item b i))) = (d', na', nb')" by simp
  then show ?case by (rule Cons.IH [OF add_proper add_proper add_proper])
qed

lemma cosineSimilarity_proper: "proper (cosineSimilarity a b)"
proof -
  obtain d na nb where loop:
    "cosLoop a b [0..<length a] (Number False 0, Number False 0, Number False 0) = (d, na, nb)"
    by (metis prod_cases3)
  have z: "proper (Number False 0)" by (simp add: huge_pos onGrid_def)
  from cosLoop_proper [OF z z z loop] have "proper d" "proper na" "proper nb" by simp_all
  then have "nonnegMag d" "nonnegMag (orOne (mul_d (sqrt_d na) (sqrt_d nb)))"
    by (simp_all add: proper_nonnegMag orOne_nonnegMag mul_nonnegMag sqrt_d_nonnegMag)
  then have "proper (div_d d (orOne (mul_d (sqrt_d na) (sqrt_d nb))))" by (rule div_d_proper)
  then show ?thesis by (simp add: cosineSimilarity_def loop)
qed

lemma grid_apart:
  assumes "onGrid m" and "onGrid n" and "z = (if s then - m else m) - (if t then - n else n)"
    and "z \<noteq> 0"
  shows "2 powi (- 1074) \<le> \<bar>z\<bar>"
proof -
  from assms(1,2) obtain k l :: int
    where m: "m = of_int k * 2 powi (- 1074)" and n: "n = of_int l * 2 powi (- 1074)"
    unfolding onGrid_def by blast
  define j where "j = (if s then - k else k) - (if t then - l else l)"
  have z: "z = of_int j * 2 powi (- 1074)"
    unfolding assms(3) m n j_def by (simp add: algebra_simps)
  have g: "(0::real) < 2 powi (- 1074)" by simp
  have "j \<noteq> 0" using assms(4) z by auto
  then have "1 \<le> \<bar>j\<bar>" by simp
  then have "1 \<le> \<bar>real_of_int j\<bar>" by (metis of_int_1_le_iff of_int_abs)
  then have "1 * 2 powi (- 1074) \<le> \<bar>real_of_int j\<bar> * 2 powi (- 1074)"
    using g by (simp only: mult_le_cancel_right_pos)
  also have "\<dots> = \<bar>z\<bar>" unfolding z abs_mult using g by (simp only: abs_of_pos)
  finally show ?thesis by simp
qed

lemma positive_rounded:
  assumes "2 powi (- 1074) \<le> m"
  shows "positive (rounded s m) = (\<not> s)"
proof -
  have "0 < roundMagnitude m" using assms by (rule roundMagnitude_pos)
  then show ?thesis by (simp add: positive_def rounded_def)
qed

lemma positive_sub:
  assumes "proper x" and "proper y" and "x \<noteq> NaN" and "y \<noteq> NaN"
  shows "positive (sub_d y x) = (val x < val y)"
proof (cases x)
  case xn: (Number s m)
  show ?thesis
  proof (cases y)
    case yn: (Number t n)
    define z where "z = (if t then - n else n) - (if s then - m else m)"
    have vz: "val (Number t n) + val (Number (\<not> s) m) = z" by (simp add: z_def)
    show ?thesis
    proof (cases "z = 0")
      case True
      then show ?thesis
        unfolding xn yn sub_d_def neg_d.simps add_d.simps vz
        by (simp add: positive_def z_def)
    next
      case False
      have "onGrid n" "onGrid m" using assms(1,2) xn yn by simp_all
      from grid_apart [OF this z_def False] have "positive (rounded (z < 0) \<bar>z\<bar>) = (\<not> z < 0)"
        by (rule positive_rounded)
      then show ?thesis
        unfolding xn yn sub_d_def neg_d.simps add_d.simps vz using False
        by (auto simp: z_def)
    qed
  next
    case (Infinity t)
    have "m < huge" "0 \<le> m" using assms(1) xn by simp_all
    then show ?thesis using xn Infinity huge_pos by (simp add: sub_d_def positive_def)
  qed (use assms in simp)
next
  case xi: (Infinity s)
  show ?thesis
  proof (cases y)
    case (Number t n)
    have "n < huge" "0 \<le> n" using assms(2) Number by simp_all
    then show ?thesis using xi Number huge_pos by (simp add: sub_d_def positive_def)
  next
    case (Infinity t)
    then show ?thesis using xi huge_pos by (auto simp: sub_d_def positive_def)
  qed (use assms in simp)
qed (use assms in simp)

lemma greater_val:
  assumes "proper x" and "proper y" and "x \<noteq> NaN" and "y \<noteq> NaN"
  shows "greater x y = (val y < val x)"
proof (cases x)
  case xn: (Number s m)
  show ?thesis
  proof (cases y)
    case (Infinity t)
    have "m < huge" "0 \<le> m" using assms(1) xn by simp_all
    then show ?thesis using xn Infinity huge_pos by simp
  qed (use assms xn in simp_all)
next
  case xi: (Infinity s)
  show ?thesis
  proof (cases y)
    case (Number t n)
    have "n < huge" "0 \<le> n" using assms(2) Number by simp_all
    then show ?thesis using xi Number huge_pos by simp
  next
    case (Infinity t)
    then show ?thesis using xi huge_pos by auto
  qed (use assms in simp)
qed (use assms in simp)

lemma rounded_normal:
  assumes "2 powi (- 1022) \<le> m" and "m \<le> 2 ^ 1023"
  shows "\<exists>r. rounded s m = Number s r \<and> \<bar>r - m\<bar> \<le> m / 2 ^ 53"
proof -
  have pos: "0 < m" using assms(1) by (smt (verit) zero_less_power_int)
  have err: "\<bar>roundMagnitude m - m\<bar> \<le> m / 2 ^ 53"
    using assms(1) by (rule roundMagnitude_error)
  have "m / 2 ^ 53 < m" using pos by (simp add: field_simps)
  with err have "roundMagnitude m < 2 * m" by linarith
  also have "\<dots> \<le> 2 * 2 ^ 1023" using assms(2) by simp
  also have "(2::real) * 2 ^ 1023 = huge" unfolding huge_def by simp
  finally have "\<not> huge \<le> roundMagnitude m" by simp
  then have "rounded s m = Number s (roundMagnitude m)" by (simp add: rounded_def)
  with err show ?thesis by blast
qed

lemma unit_facts:
  fixes u :: real
  assumes "u = 1 / 2 ^ 53"
  shows "(1 + u) / (1 - u) ^ 3 \<le> 1 + 5 * u" and "1 - 5 * u \<le> (1 - u) / (1 + u) ^ 3"
    and "1 / 2 \<le> (1 - u) ^ 2" and "(1 + u) ^ 2 \<le> 2"
    and "1 / 2 \<le> 1 / (1 + u) ^ 3" and "1 / (1 - u) ^ 3 \<le> 2"
    and "0 < 1 - u"
  unfolding assms by (simp_all add: power2_eq_square power3_eq_cube)

lemma self_similarity_bound:
  assumes lo: "2 powi (- 1021) \<le> m" and hi: "m \<le> 2 ^ 1022"
  shows "\<exists>r. div_d (Number False m)
               (orOne (mul_d (sqrt_d (Number False m)) (sqrt_d (Number False m)))) =
             Number False r \<and> \<bar>r - 1\<bar> \<le> 5 / 2 ^ 53"
proof -
  define u :: real where "u = 1 / 2 ^ 53"
  note uf = unit_facts [OF u_def]
  have u0: "0 < u" by (simp add: u_def)
  have pos: "0 < m" using lo by (smt (verit) zero_less_power_int)
  have tiny: "(2::real) powi (- 1022) \<le> 2 powi (- 1021)"
    by (rule power_int_increasing) simp_all
  have "(2::real) powi (- 1022) \<le> 2 powi 0"
    by (rule power_int_increasing) simp_all
  then have tiny1: "(2::real) powi (- 1022) \<le> 1" by simp
  have half: "(2::real) powi (- 1021) / 2 = 2 powi (- 1022)"
  proof -
    have "(2::real) powi (- 1021) = 2 powi (- 1022 + 1)" by simp
    also have "\<dots> = 2 powi (- 1022) * 2 powi 1" by (rule power_int_add) simp
    finally show ?thesis by simp
  qed
  have big: "(2::real) ^ 1022 * 2 = 2 ^ 1023" by simp
  have one_big: "(1::real) \<le> 2 ^ 1022" by simp
  \<comment> \<open>the square root\<close>
  have sq: "sqrt m * sqrt m = m" using pos by simp
  have s_lo: "2 powi (- 1022) \<le> sqrt m"
  proof (cases "1 \<le> m")
    case True
    then have "1 \<le> sqrt m" by simp
    with tiny1 show ?thesis by linarith
  next
    case False
    then have "sqrt m \<le> 1" by simp
    then have "sqrt m * sqrt m \<le> 1 * sqrt m" using pos by (intro mult_right_mono) simp_all
    then have "m \<le> sqrt m" unfolding sq by simp
    with lo tiny show ?thesis by linarith
  qed
  have s_hi: "sqrt m \<le> 2 ^ 1023"
  proof (cases "1 \<le> m")
    case True
    then have "1 \<le> sqrt m" by simp
    then have "sqrt m * 1 \<le> sqrt m * sqrt m" by (intro mult_left_mono) simp_all
    then have "sqrt m \<le> m" unfolding sq by simp
    then have "sqrt m \<le> 2 ^ 1022" using hi by linarith
    also have "(2::real) ^ 1022 \<le> 2 ^ 1023" by (rule power_increasing) simp_all
    finally show ?thesis .
  next
    case False
    then have "sqrt m \<le> 1" by simp
    also have "(1::real) \<le> 2 ^ 1023" by simp
    finally show ?thesis .
  qed
  from rounded_normal [OF s_lo s_hi, of False] obtain r1
    where r1: "rounded False (sqrt m) = Number False r1" and e1: "\<bar>r1 - sqrt m\<bar> \<le> sqrt m * u"
    unfolding u_def by auto
  have root: "sqrt_d (Number False m) = Number False r1"
    using pos r1 by simp
  have sm: "0 < sqrt m" using pos by simp
  have r1_lo: "(1 - u) * sqrt m \<le> r1" and r1_hi: "r1 \<le> (1 + u) * sqrt m"
    using e1 by (simp_all add: abs_le_iff algebra_simps)
  have r1_pos: "0 < r1"
  proof -
    have "0 < (1 - u) * sqrt m" using uf(7) sm by simp
    with r1_lo show ?thesis by linarith
  qed
  \<comment> \<open>the product of the two roots\<close>
  have p_lo: "(1 - u) ^ 2 * m \<le> r1 * r1"
  proof -
    have "0 \<le> (1 - u) * sqrt m" using uf(7) sm by simp
    then have "((1 - u) * sqrt m) * ((1 - u) * sqrt m) \<le> r1 * r1"
      using r1_lo r1_pos by (intro mult_mono) simp_all
    then show ?thesis using sq by (simp add: power2_eq_square algebra_simps)
  qed
  have p_hi: "r1 * r1 \<le> (1 + u) ^ 2 * m"
  proof -
    have "0 \<le> (1 + u) * sqrt m" using u0 sm by simp
    then have "r1 * r1 \<le> ((1 + u) * sqrt m) * ((1 + u) * sqrt m)"
      using r1_hi r1_pos by (intro mult_mono) simp_all
    then show ?thesis using sq by (simp add: power2_eq_square algebra_simps)
  qed
  have "2 powi (- 1022) \<le> (1 / 2) * m" using lo half by simp
  also have "\<dots> \<le> (1 - u) ^ 2 * m" using uf(3) pos by (intro mult_right_mono) simp_all
  finally have rr_lo: "2 powi (- 1022) \<le> r1 * r1" using p_lo by linarith
  have "(1 + u) ^ 2 * m \<le> 2 * m" using uf(4) pos by (intro mult_right_mono) simp_all
  also have "\<dots> \<le> 2 ^ 1023" using hi big by linarith
  finally have rr_hi: "r1 * r1 \<le> 2 ^ 1023" using p_hi by linarith
  from rounded_normal [OF rr_lo rr_hi, of False] obtain p
    where p: "rounded False (r1 * r1) = Number False p" and e2: "\<bar>p - r1 * r1\<bar> \<le> r1 * r1 * u"
    unfolding u_def by auto
  have rr_pos: "0 < r1 * r1" using r1_pos by simp
  have pl: "(1 - u) * (r1 * r1) \<le> p" and ph: "p \<le> (1 + u) * (r1 * r1)"
    using e2 by (simp_all add: abs_le_iff algebra_simps)
  have p_pos: "0 < p"
  proof -
    have "0 < (1 - u) * (r1 * r1)" using uf(7) rr_pos by simp
    with pl show ?thesis by linarith
  qed
  have "mul_d (Number False r1) (Number False r1) = Number False p" using p by simp
  then have prod: "orOne (mul_d (sqrt_d (Number False m)) (sqrt_d (Number False m))) = Number False p"
    unfolding root orOne_def using p_pos by simp
  have p3_lo: "(1 - u) ^ 3 * m \<le> p"
  proof -
    have "(1 - u) * ((1 - u) ^ 2 * m) \<le> (1 - u) * (r1 * r1)"
      using p_lo uf(7) by (intro mult_left_mono) simp_all
    with pl show ?thesis by (simp add: power2_eq_square power3_eq_cube algebra_simps)
  qed
  have p3_hi: "p \<le> (1 + u) ^ 3 * m"
  proof -
    have "(1 + u) * (r1 * r1) \<le> (1 + u) * ((1 + u) ^ 2 * m)"
      using p_hi u0 by (intro mult_left_mono) simp_all
    with ph show ?thesis by (simp add: power2_eq_square power3_eq_cube algebra_simps)
  qed
  \<comment> \<open>the quotient\<close>
  define t where "t = m / p"
  have a3: "0 < (1 - u) ^ 3" using uf(7) by simp
  have b3: "0 < (1 + u) ^ 3" using u0 by simp
  have t_hi: "t \<le> 1 / (1 - u) ^ 3"
  proof -
    have "m \<le> p / (1 - u) ^ 3" using p3_lo a3 by (simp add: pos_le_divide_eq mult.commute)
    then show ?thesis unfolding t_def using p_pos by (simp add: pos_divide_le_eq field_simps)
  qed
  have t_lo: "1 / (1 + u) ^ 3 \<le> t"
  proof -
    have "p / (1 + u) ^ 3 \<le> m" using p3_hi b3 by (simp add: pos_divide_le_eq mult.commute)
    then show ?thesis unfolding t_def using p_pos by (simp add: pos_le_divide_eq field_simps)
  qed
  have t_pos: "0 < t" unfolding t_def using pos p_pos by simp
  have "(2::real) powi (- 1022) \<le> 2 powi (- 1)"
    by (rule power_int_increasing) simp_all
  then have "(2::real) powi (- 1022) \<le> 1 / 2" by simp
  then have "2 powi (- 1022) \<le> t" using t_lo uf(5) by linarith
  moreover have "t \<le> 2 ^ 1023"
  proof -
    have "t \<le> 2" using t_hi uf(6) by linarith
    also have "(2::real) \<le> 2 ^ 1023" using power_increasing [of 1 1023 "2::real"] by simp
    finally show ?thesis .
  qed
  ultimately obtain q
    where q: "rounded False t = Number False q" and e3: "\<bar>q - t\<bar> \<le> t * u"
    using rounded_normal [of t False] unfolding u_def by auto
  have quot: "div_d (Number False m) (Number False p) = Number False q"
    using q p_pos by (simp add: t_def)
  have ql: "(1 - u) * t \<le> q" and qh: "q \<le> (1 + u) * t"
    using e3 by (simp_all add: abs_le_iff algebra_simps)
  have "q \<le> (1 + u) * (1 / (1 - u) ^ 3)"
  proof -
    have "(1 + u) * t \<le> (1 + u) * (1 / (1 - u) ^ 3)"
      using t_hi u0 by (intro mult_left_mono) simp_all
    with qh show ?thesis by linarith
  qed
  then have up: "q \<le> 1 + 5 * u" using uf(1) by simp
  have "(1 - u) * (1 / (1 + u) ^ 3) \<le> q"
  proof -
    have "(1 - u) * (1 / (1 + u) ^ 3) \<le> (1 - u) * t"
      using t_lo uf(7) by (intro mult_left_mono) simp_all
    with ql show ?thesis by linarith
  qed
  then have down: "1 - 5 * u \<le> q" using uf(2) by simp
  have "5 * u = 5 / 2 ^ 53" by (simp add: u_def)
  then have "\<bar>q - 1\<bar> \<le> 5 / 2 ^ 53" using up down by linarith
  then show ?thesis unfolding prod quot by simp
qed

lemma rounded_zero: "rounded s 0 = Number s 0"
  by (simp add: rounded_def roundMagnitude_def huge_def)

lemma rounded_small:
  "rounded s 1 = Number s 1" "rounded s 2 = Number s 2"
  using rounded_nat [of 1 s] rounded_nat [of 2 s] by simp_all

subsection \<open>Retriever: similarity and ranking\<close>

lemma cosLoop_foldl:
  "cosLoop a b js (d, na, nb) =
     (foldl (\<lambda>acc i. add_d acc (mul_d (item a i) (item b i))) d js,
      foldl (\<lambda>acc i. add_d acc (mul_d (item a i) (item a i))) na js,
      foldl (\<lambda>acc i. add_d acc (mul_d (item b i) (item b i))) nb js)"
  by (induction js arbitrary: d na nb) simp_all

lemma foldl_index_zip:
  assumes "n \<le> length a" and "n \<le> length b"
  shows "foldl (\<lambda>acc i. add_d acc (mul_d (item a i) (item b i))) d [0..<n] =
         foldl (\<lambda>acc (x, y). add_d acc (mul_d x y)) d (zip (take n a) (take n b))"
  using assms
proof (induction n)
  case 0
  then show ?case by simp
next
  case (Suc n)
  then have n: "n < length a" "n < length b" by simp_all
  have "zip (take (Suc n) a) (take (Suc n) b) =
        zip (take n a) (take n b) @ [(a ! n, b ! n)]"
    using n by (simp add: take_Suc_conv_app_nth)
  then show ?case using Suc.IH n by (simp add: item_def)
qed

lemma zip_take_same: "zip a (take (length a) b) = zip a b"
proof (induction a arbitrary: b)
  case Nil
  then show ?case by simp
next
  case (Cons x a)
  then show ?case by (cases b) simp_all
qed

lemma cosineSimilarity_formula:
  assumes "length a \<le> length b"
  shows "cosineSimilarity a b =
         div_d (dotProduct a b)
           (orOne (mul_d (sqrt_d (dotProduct a a))
                       (sqrt_d (dotProduct (take (length a) b) (take (length a) b)))))"
proof -
  have "foldl (\<lambda>acc i. add_d acc (mul_d (item a i) (item b i))) (Number False 0) [0..<length a] =
        dotProduct a b"
    using foldl_index_zip [of "length a" a b] assms
    by (simp add: dotProduct_def zip_take_same)
  moreover have "foldl (\<lambda>acc i. add_d acc (mul_d (item a i) (item a i))) (Number False 0) [0..<length a] =
        dotProduct a a"
    using foldl_index_zip [of "length a" a a] by (simp add: dotProduct_def)
  moreover have "foldl (\<lambda>acc i. add_d acc (mul_d (item b i) (item b i))) (Number False 0) [0..<length a] =
        dotProduct (take (length a) b) (take (length a) b)"
    using foldl_index_zip [of "length a" b b] assms by (simp add: dotProduct_def)
  ultimately show ?thesis
    by (simp add: cosineSimilarity_def cosLoop_foldl)
qed

lemma cosineSimilarity_self:
  "cosineSimilarity a a =
     div_d (dotProduct a a) (orOne (mul_d (sqrt_d (dotProduct a a)) (sqrt_d (dotProduct a a))))"
  using cosineSimilarity_formula [of a a] by simp

lemma add_NaN [simp]: "add_d x NaN = NaN" "add_d NaN x = NaN"
  by (cases x; simp)+

lemma mul_NaN [simp]: "mul_d x NaN = NaN" "mul_d NaN x = NaN"
  by (cases x; simp)+

lemma foldl_add_NaN: "foldl (\<lambda>acc i. add_d acc (f i)) NaN js = NaN"
  by (induction js) simp_all

lemma cosineSimilarity_short:
  assumes "length b < length a"
  shows "cosineSimilarity a b = NaN"
proof -
  have split: "[0..<length a] = [0..<length b] @ length b # [Suc (length b)..<length a]"
  proof -
    have "[0..<length a] = [0..<length b + (length a - length b)]" using assms by simp
    also have "\<dots> = [0..<length b] @ [length b..<length b + (length a - length b)]"
      by (rule upt_add_eq_append) simp
    also have "[length b..<length b + (length a - length b)] =
        length b # [Suc (length b)..<length a]"
      using assms by (simp add: upt_conv_Cons)
    finally show ?thesis .
  qed
  have "foldl (\<lambda>acc i. add_d acc (mul_d (item a i) (item b i))) (Number False 0) [0..<length a] = NaN"
    unfolding split by (simp add: item_def foldl_add_NaN)
  then show ?thesis by (simp add: cosineSimilarity_def cosLoop_foldl)
qed

lemma dotProduct_self_proper: "proper (dotProduct a a)"
proof -
  have "proper (foldl (\<lambda>acc (x, y). add_d acc (mul_d x y)) d xs)" if "proper d" for d xs
    using that by (induction xs arbitrary: d) (simp_all add: add_proper split_beta)
  then show ?thesis by (simp add: dotProduct_def huge_pos onGrid_def)
qed

lemma set_insertBy [simp]: "set (insertBy cmp x ys) = insert x (set ys)"
  by (induction ys) auto

lemma length_insertBy [simp]: "length (insertBy cmp x ys) = Suc (length ys)"
  by (induction ys) simp_all

lemma distinct_insertBy: "distinct ys \<Longrightarrow> x \<notin> set ys \<Longrightarrow> distinct (insertBy cmp x ys)"
  by (induction ys) auto

lemma set_sortBy [simp]: "set (sortBy cmp xs) = set xs"
  by (induction xs) (simp_all add: sortBy_def)

lemma length_sortBy [simp]: "length (sortBy cmp xs) = length xs"
  by (induction xs) (simp_all add: sortBy_def)

lemma distinct_sortBy: "distinct xs \<Longrightarrow> distinct (sortBy cmp xs)"
proof (induction xs)
  case Nil
  then show ?case by (simp add: sortBy_def)
next
  case (Cons x xs)
  then have "distinct (sortBy cmp xs)" "x \<notin> set (sortBy cmp xs)" by simp_all
  then have "distinct (insertBy cmp x (sortBy cmp xs))" by (rule distinct_insertBy)
  then show ?case by (simp add: sortBy_def)
qed

lemma insertBy_insort:
  assumes "\<And>y. y \<in> set ys \<Longrightarrow> positive (cmp x y) = (\<not> f x \<le> f y)"
  shows "insertBy cmp x ys = insort_key f x ys"
  using assms by (induction ys) simp_all

lemma sortBy_sort_key:
  assumes "\<And>x y. x \<in> set xs \<Longrightarrow> y \<in> set xs \<Longrightarrow> positive (cmp x y) = (\<not> f x \<le> f y)"
  shows "sortBy cmp xs = sort_key f xs"
  using assms
proof (induction xs)
  case Nil
  then show ?case by (simp add: sortBy_def)
next
  case (Cons x xs)
  have IH: "sortBy cmp xs = sort_key f xs" using Cons.prems by (intro Cons.IH) simp_all
  have "insertBy cmp x (sort_key f xs) = insort_key f x (sort_key f xs)"
    using Cons.prems by (intro insertBy_insort) simp_all
  then show ?case using IH by (simp add: sortBy_def)
qed

lemma length_scoreAll [simp]: "length (scoreAll q E) = length E"
  by (simp add: scoreAll_def)

lemma scoreAll_nth:
  "i < length E \<Longrightarrow> scoreAll q E ! i = \<lparr>idx = i, score = cosineSimilarity q (E ! i)\<rparr>"
  by (simp add: scoreAll_def nth_enumerate_eq)

lemma scoreAll_set:
  "s \<in> set (scoreAll q E) \<Longrightarrow> idx s < length E \<and> score s = cosineSimilarity q (E ! idx s)"
  by (auto simp: in_set_conv_nth scoreAll_nth)

lemma ranked_set: "set (ranked q E) = set (scoreAll q E)"
  by (simp add: ranked_def)

lemma length_ranked [simp]: "length (ranked q E) = length E"
  by (simp add: ranked_def)

lemma scoreAll_number:
  assumes "\<forall>v \<in> set E. cosineSimilarity q v \<noteq> NaN" and "s \<in> set (scoreAll q E)"
  shows "proper (score s) \<and> score s \<noteq> NaN"
proof -
  from scoreAll_set [OF assms(2)]
  have "idx s < length E" and sc: "score s = cosineSimilarity q (E ! idx s)" by simp_all
  then have "E ! idx s \<in> set E" by simp
  with assms(1) sc show ?thesis by (simp add: cosineSimilarity_proper)
qed

lemma ranked_sort_key:
  assumes "\<forall>v \<in> set E. cosineSimilarity q v \<noteq> NaN"
  shows "ranked q E = sort_key (\<lambda>s. - val (score s)) (scoreAll q E)"
  unfolding ranked_def
proof (rule sortBy_sort_key)
  fix x y
  assume "x \<in> set (scoreAll q E)" and "y \<in> set (scoreAll q E)"
  then have "proper (score x) \<and> score x \<noteq> NaN" "proper (score y) \<and> score y \<noteq> NaN"
    using scoreAll_number [OF assms] by blast+
  then have "positive (sub_d (score y) (score x)) = (val (score x) < val (score y))"
    by (intro positive_sub) simp_all
  then show "positive (compareScores x y) = (\<not> - val (score x) \<le> - val (score y))"
    by (auto simp: compareScores_def)
qed

lemma not_greater_val:
  assumes "\<forall>v \<in> set E. cosineSimilarity q v \<noteq> NaN"
    and "s \<in> set (scoreAll q E)" and "t \<in> set (scoreAll q E)"
  shows "(\<not> greater (score t) (score s)) = (val (score t) \<le> val (score s))"
proof -
  have "proper (score s) \<and> score s \<noteq> NaN" "proper (score t) \<and> score t \<noteq> NaN"
    using scoreAll_number [OF assms(1)] assms(2,3) by blast+
  then have "greater (score t) (score s) = (val (score s) < val (score t))"
    by (intro greater_val) simp_all
  then show ?thesis by auto
qed

lemma ranked_descending_wrt:
  assumes "\<forall>v \<in> set E. cosineSimilarity q v \<noteq> NaN"
  shows "sorted_wrt (\<lambda>x y. \<not> greater (score y) (score x)) (ranked q E)"
proof -
  have "sorted (map (\<lambda>s. - val (score s)) (ranked q E))"
    unfolding ranked_sort_key [OF assms] by simp
  then have "sorted_wrt (\<lambda>x y. - val (score x) \<le> - val (score y)) (ranked q E)"
    by (simp add: sorted_wrt_map)
  then show ?thesis
  proof (rule sorted_wrt_mono_rel [rotated])
    fix x y
    assume "x \<in> set (ranked q E)" and "y \<in> set (ranked q E)"
      and "- val (score x) \<le> - val (score y)"
    then show "\<not> greater (score y) (score x)"
      using not_greater_val [OF assms, of x y] by (simp add: ranked_set)
  qed
qed

lemma ranked_descending:
  assumes "\<forall>v \<in> set E. cosineSimilarity q v \<noteq> NaN" and "p' \<le> p" and "p < length E"
  shows "val (score (ranked q E ! p)) \<le> val (score (ranked q E ! p'))"
proof -
  have "sorted (map (\<lambda>s. - val (score s)) (ranked q E))"
    unfolding ranked_sort_key [OF assms(1)] by simp
  then have "map (\<lambda>s. - val (score s)) (ranked q E) ! p' \<le> map (\<lambda>s. - val (score s)) (ranked q E) ! p"
    using assms(2,3) by (intro sorted_nth_mono) simp_all
  then show ?thesis using assms(2,3) by simp
qed

lemma ranked_stable:
  assumes "\<forall>v \<in> set E. cosineSimilarity q v \<noteq> NaN"
  shows "filter (\<lambda>s. val (score s) = k) (ranked q E) = filter (\<lambda>s. val (score s) = k) (scoreAll q E)"
proof -
  have "filter (\<lambda>s. - val (score s) = - k) (sort_key (\<lambda>s. - val (score s)) (scoreAll q E)) =
        filter (\<lambda>s. - val (score s) = - k) (scoreAll q E)"
    by (rule sort_key_stable)
  then show ?thesis by (simp add: ranked_sort_key [OF assms])
qed

lemma ranked_first:
  assumes numbers: "\<forall>v \<in> set E. cosineSimilarity q v \<noteq> NaN"
    and i: "i < length E"
    and top: "\<forall>s \<in> set (scoreAll q E). val (score s) \<le> val (score (scoreAll q E ! i))"
    and before: "\<forall>j < i. val (score (scoreAll q E ! j)) \<noteq> val (score (scoreAll q E ! i))"
  shows "hd (ranked q E) = scoreAll q E ! i"
proof -
  let ?xs = "scoreAll q E"
  let ?k = "val (score (?xs ! i))"
  have ne: "ranked q E \<noteq> []" using i by (auto simp: length_0_conv [symmetric] simp del: length_0_conv)
  have mem: "?xs ! i \<in> set (ranked q E)" using i by (simp add: ranked_set)
  then obtain p where "p < length (ranked q E)" and "ranked q E ! p = ?xs ! i"
    unfolding in_set_conv_nth by blast
  then have p: "p < length E" "ranked q E ! p = ?xs ! i" by simp_all
  have "val (score (ranked q E ! p)) \<le> val (score (ranked q E ! 0))"
    using numbers _ p(1) by (rule ranked_descending) simp
  moreover have "ranked q E ! 0 \<in> set (scoreAll q E)"
    using ne by (metis length_greater_0_conv nth_mem ranked_set)
  then have "val (score (ranked q E ! 0)) \<le> ?k"
    using top by blast
  ultimately have hdk: "val (score (hd (ranked q E))) = ?k"
    using p(2) ne by (simp add: hd_conv_nth)
  have "hd (ranked q E) = hd (filter (\<lambda>s. val (score s) = ?k) (ranked q E))"
    using ne hdk by (cases "ranked q E") simp_all
  also have "\<dots> = hd (filter (\<lambda>s. val (score s) = ?k) ?xs)"
    by (simp only: ranked_stable [OF numbers])
  also have "\<dots> = ?xs ! i"
  proof -
    have split: "?xs = take i ?xs @ ?xs ! i # drop (Suc i) ?xs"
      using i by (simp add: id_take_nth_drop [symmetric])
    have "filter (\<lambda>s. val (score s) = ?k) (take i ?xs) = []"
      using before i by (auto simp: filter_empty_conv in_set_conv_nth)
    then have "filter (\<lambda>s. val (score s) = ?k) ?xs =
        ?xs ! i # filter (\<lambda>s. val (score s) = ?k) (drop (Suc i) ?xs)"
      by (subst split) simp
    then show ?thesis by simp
  qed
  finally show ?thesis .
qed

lemma dotProduct_zero_vector:
  assumes "\<forall>x \<in> set a. \<exists>sg. x = Number sg 0"
  shows "dotProduct a a = Number False 0"
proof -
  have "foldl (\<lambda>acc (x, y). add_d acc (mul_d x y)) (Number False 0) (zip a a) = Number False 0"
    using assms
  proof (induction a)
    case Nil
    then show ?case by simp
  next
    case (Cons x a)
    then obtain sg where "x = Number sg 0" by auto
    then show ?case using Cons by (simp add: rounded_zero)
  qed
  then show ?thesis by (simp add: dotProduct_def)
qed

lemma self_zero:
  "div_d (Number False 0) (orOne (mul_d (sqrt_d (Number False 0)) (sqrt_d (Number False 0)))) =
     Number False 0"
  by (simp add: rounded_zero orOne_def)

lemma ranked_hd_max:
  assumes numbers: "\<forall>v \<in> set E. cosineSimilarity q v \<noteq> NaN"
    and "s \<in> set (scoreAll q E)"
  shows "val (score s) \<le> val (score (hd (ranked q E)))"
proof -
  from assms(2) have mem: "s \<in> set (ranked q E)" by (simp add: ranked_set)
  then obtain p where p: "p < length (ranked q E)" "ranked q E ! p = s"
    unfolding in_set_conv_nth by blast
  from mem have ne: "ranked q E \<noteq> []" by (metis empty_iff empty_set)
  have "val (score (ranked q E ! p)) \<le> val (score (ranked q E ! 0))"
    using numbers _ p(1) [simplified] by (rule ranked_descending) simp
  then show ?thesis using p(2) ne by (simp add: hd_conv_nth)
qed

lemma ranked_first_conv:
  assumes numbers: "\<forall>v \<in> set E. cosineSimilarity q v \<noteq> NaN"
    and i: "i < length E"
    and first: "hd (ranked q E) = scoreAll q E ! i"
    and j: "j < i"
  shows "val (score (scoreAll q E ! j)) \<noteq> val (score (scoreAll q E ! i))"
proof
  let ?xs = "scoreAll q E"
  let ?k = "val (score (?xs ! i))"
  let ?P = "\<lambda>s. val (score s) = ?k"
  assume eq: "val (score (?xs ! j)) = ?k"
  have ne: "ranked q E \<noteq> []" using i by (auto simp: length_0_conv [symmetric] simp del: length_0_conv)
  have "hd (filter ?P (ranked q E)) = hd (ranked q E)"
    using ne first by (cases "ranked q E") simp_all
  then have h: "hd (filter ?P ?xs) = ?xs ! i"
    using first by (simp only: ranked_stable [OF numbers])
  have "?xs ! j \<in> set (take i ?xs)"
    using i j by (auto simp: in_set_conv_nth)
  then have "?xs ! j \<in> set (filter ?P (take i ?xs))" using eq by simp
  then have ne': "filter ?P (take i ?xs) \<noteq> []" by (metis empty_iff empty_set)
  have "filter ?P ?xs = filter ?P (take i ?xs) @ filter ?P (drop i ?xs)"
    by (metis append_take_drop_id filter_append)
  then have "hd (filter ?P ?xs) = hd (filter ?P (take i ?xs))" using ne' by simp
  moreover have "hd (filter ?P (take i ?xs)) \<in> set (filter ?P (take i ?xs))"
    using ne' by (rule hd_in_set)
  ultimately have "?xs ! i \<in> set (take i ?xs)" using h by simp
  then obtain j' where j': "j' < i" "?xs ! j' = ?xs ! i"
    using i by (auto simp: in_set_conv_nth)
  then have "idx (?xs ! j') = idx (?xs ! i)" by simp
  then show False using j' i by (simp add: scoreAll_nth)
qed

text \<open>
  Claim C7, as stated, fails in double arithmetic. With the vectors \<open>[1, 1]\<close> and \<open>[3, 3]\<close>
  in the corpus, in this order, and the query \<open>[1, 1]\<close>: the first chunk is identical to
  the query and receives the similarity \<open>1 - 1 / 2 ^ 52\<close>, because the product of the two
  rounded roots of 2 is \<open>2 + 1 / 2 ^ 51\<close>; the second chunk receives 1 and is ranked first.
  And a chunk whose vector is the zero vector, like the query's, receives similarity 0.
\<close>

theorem similarity_counterexample:
  "map (map ofInt) [[1, 1], [3, 3]] ! 0 = map ofInt [1, 1] \<and>
   cosineSimilarity (map ofInt [1, 1]) (map (map ofInt) [[1, 1], [3, 3]] ! 0) =
     Number False (1 - 1 / 2 ^ 52) \<and>
   cosineSimilarity (map ofInt [1, 1]) (map (map ofInt) [[1, 1], [3, 3]] ! 1) = Number False 1 \<and>
   map idx (ranked (map ofInt [1, 1]) (map (map ofInt) [[1, 1], [3, 3]])) = [1, 0] \<and>
   cosineSimilarity (map ofInt [0, 0]) (map ofInt [0, 0]) = Number False 0"
proof -
  have n: "rounded False 3 = Number False 3" "rounded False 6 = Number False 6"
    "rounded False 9 = Number False 9" "rounded False 18 = Number False 18"
    using rounded_nat [of 3 False] rounded_nat [of 6 False] rounded_nat [of 9 False]
      rounded_nat [of 18 False] by simp_all
  have s2: "rounded False (sqrt 2) = Number False (6369051672525773 / 2 ^ 52)"
    using rounded_sqrt [of 0 2 6369051672525773 False] by (simp add: power2_eq_square)
  have s18: "rounded False (sqrt 18) = Number False (4776788754394329 / 2 ^ 50)"
    using rounded_sqrt [of 2 18 4776788754394329 False] by (simp add: power2_eq_square)
  have p2: "rounded False (6369051672525773 / 2 ^ 52 * (6369051672525773 / 2 ^ 52)) =
             Number False (4503599627370497 / 2 ^ 51)"
    using rounded_near [of 1 "6369051672525773 / 2 ^ 52 * (6369051672525773 / 2 ^ 52)"
        4503599627370497 False] by simp
  have p18: "rounded False (6369051672525773 / 2 ^ 52 * (4776788754394329 / 2 ^ 50)) =
             Number False 6"
    using rounded_near [of 2 "6369051672525773 / 2 ^ 52 * (4776788754394329 / 2 ^ 50)"
        6755399441055744 False] by simp
  have q2: "rounded False (2 / (4503599627370497 / 2 ^ 51)) = Number False (1 - 1 / 2 ^ 52)"
    using rounded_near [of "- 1" "2 / (4503599627370497 / 2 ^ 51)" 9007199254740990 False]
    by simp
  have d: "rounded False (1 / 2 ^ 52) = Number False (1 / 2 ^ 52)"
    using rounded_near [of "- 52" "1 / 2 ^ 52" 4503599627370496 False] by simp
  have c0: "cosineSimilarity [Number False 1, Number False 1] [Number False 1, Number False 1] =
      Number False (1 - 1 / 2 ^ 52)"
    unfolding cosineSimilarity_def
    by (simp add: upt_rec item_def rounded_small s2 [simplified] p2 [simplified] orOne_def
        q2 [simplified])
  have c1: "cosineSimilarity [Number False 1, Number False 1] [Number False 3, Number False 3] =
      Number False 1"
    unfolding cosineSimilarity_def
    by (simp add: upt_rec item_def rounded_small n s2 [simplified] s18 [simplified]
        p18 [simplified] orOne_def)
  have z: "cosineSimilarity [Number False 0, Number False 0] [Number False 0, Number False 0] =
      Number False 0"
    unfolding cosineSimilarity_def by (simp add: upt_rec item_def rounded_zero orOne_def)
  have rk: "map idx (ranked (map ofInt [1, 1]) (map (map ofInt) [[1, 1], [3, 3]])) = [1, 0]"
    by (simp add: ranked_def scoreAll_def ofInt_def c0 [simplified] c1 sortBy_def
        compareScores_def sub_d_def positive_def d [simplified])
  show ?thesis
    using rk by (simp add: ofInt_def c0 c1 z)
qed

text \<open>
  Claim C7, amended, in double arithmetic. The similarity function computes the rounded
  quotient of the dot product of the two vectors by the rounded product of the rounded
  square roots of their dot products with themselves, or by 1 when that product is a zero
  or not a number; the dot products are rounded sums of rounded products, taken from the
  left, and only the entries of the second vector at the indices of the first count. A
  second vector shorter than the first gives a similarity that is not a number. So let the
  vector of chunk \<open>i\<close> be identical to the query vector, \<open>s\<close> be the dot product of the
  query with itself, and the similarities of all chunks be numbers. Then the similarity \<open>c\<close>
  of chunk \<open>i\<close> is the quotient of \<open>s\<close> by the product of its two roots, or by 1. It is 0
  when \<open>s\<close> is 0, as for a zero vector; when \<open>s\<close> is a number between \<open>2 powi (- 1021)\<close> and
  \<open>2 ^ 1022\<close>, it is a number that differs from 1 by at most \<open>5 / 2 ^ 53\<close>. In the
  descending sort no chunk ranked before chunk \<open>i\<close> has a smaller similarity, and chunk
  \<open>i\<close> is ranked first exactly when no chunk has a greater similarity and every chunk
  before it in the corpus has a smaller one.
\<close>

theorem similarity_and_rank:
  assumes i: "i < length embeddings"
    and same: "embeddings ! i = q"
    and numbers: "\<forall>v \<in> set embeddings. cosineSimilarity q v \<noteq> NaN"
    and s: "s = dotProduct q q"
    and c: "c = cosineSimilarity q (embeddings ! i)"
  shows "(\<forall>a b. length a \<le> length b \<longrightarrow>
            cosineSimilarity a b =
              div_d (dotProduct a b)
                (orOne (mul_d (sqrt_d (dotProduct a a))
                          (sqrt_d (dotProduct (take (length a) b) (take (length a) b)))))) \<and>
         (\<forall>a b. length b < length a \<longrightarrow> cosineSimilarity a b = NaN) \<and>
         c = div_d s (orOne (mul_d (sqrt_d s) (sqrt_d s))) \<and>
         ((\<forall>x \<in> set q. \<exists>sg. x = Number sg 0) \<longrightarrow> s = Number False 0) \<and>
         (s = Number False 0 \<longrightarrow> c = Number False 0) \<and>
         (\<forall>m. s = Number False m \<and> 2 powi (- 1021) \<le> m \<and> m \<le> 2 ^ 1022 \<longrightarrow>
              (\<exists>r. c = Number False r \<and> \<bar>r - 1\<bar> \<le> 5 / 2 ^ 53)) \<and>
         (\<exists>p < length embeddings.
            ranked q embeddings ! p = \<lparr>idx = i, score = c\<rparr> \<and>
            (\<forall>p' < p. \<not> greater c (score (ranked q embeddings ! p')))) \<and>
         (hd (ranked q embeddings) = \<lparr>idx = i, score = c\<rparr> \<longleftrightarrow>
            (\<forall>j < length embeddings. \<not> greater (cosineSimilarity q (embeddings ! j)) c) \<and>
            (\<forall>j < i. greater c (cosineSimilarity q (embeddings ! j))))"
proof -
  let ?xs = "scoreAll q embeddings"
  have formula: "\<forall>a b. length a \<le> length b \<longrightarrow>
            cosineSimilarity a b =
              div_d (dotProduct a b)
                (orOne (mul_d (sqrt_d (dotProduct a a))
                          (sqrt_d (dotProduct (take (length a) b) (take (length a) b)))))"
    using cosineSimilarity_formula by blast
  have short: "\<forall>a b. length b < length a \<longrightarrow> cosineSimilarity a b = NaN"
    using cosineSimilarity_short by blast
  have self: "c = div_d s (orOne (mul_d (sqrt_d s) (sqrt_d s)))"
    unfolding c same s by (rule cosineSimilarity_self)
  have zero_vec: "(\<forall>x \<in> set q. \<exists>sg. x = Number sg 0) \<longrightarrow> s = Number False 0"
    unfolding s using dotProduct_zero_vector by blast
  have zero: "s = Number False 0 \<longrightarrow> c = Number False 0"
    using self self_zero by simp
  have near: "\<forall>m. s = Number False m \<and> 2 powi (- 1021) \<le> m \<and> m \<le> 2 ^ 1022 \<longrightarrow>
              (\<exists>r. c = Number False r \<and> \<bar>r - 1\<bar> \<le> 5 / 2 ^ 53)"
  proof (intro allI impI)
    fix m
    assume a: "s = Number False m \<and> 2 powi (- 1021) \<le> m \<and> m \<le> 2 ^ 1022"
    then have "2 powi (- 1021) \<le> m" "m \<le> 2 ^ 1022" by simp_all
    from self_similarity_bound [OF this] show "\<exists>r. c = Number False r \<and> \<bar>r - 1\<bar> \<le> 5 / 2 ^ 53"
      unfolding self using a by simp
  qed
  have entry: "?xs ! i = \<lparr>idx = i, score = c\<rparr>"
    using scoreAll_nth [OF i, of q] c by simp
  have cj: "score (?xs ! j) = cosineSimilarity q (embeddings ! j)" if "j < length embeddings" for j
    using scoreAll_nth [OF that, of q] by simp
  have in_xs: "?xs ! j \<in> set ?xs" if "j < length embeddings" for j
    using that by simp
  have ci: "score (?xs ! i) = c" using entry by simp
  have gr: "greater (score (?xs ! j)) (score (?xs ! l)) =
            (val (score (?xs ! l)) < val (score (?xs ! j)))"
    if "j < length embeddings" and "l < length embeddings" for j l
    using not_greater_val [OF numbers in_xs [OF that(2)] in_xs [OF that(1)]] by auto
  have "\<lparr>idx = i, score = c\<rparr> \<in> set (ranked q embeddings)"
    using i entry by (metis length_scoreAll nth_mem ranked_set)
  then obtain p where "p < length (ranked q embeddings)"
    and at: "ranked q embeddings ! p = \<lparr>idx = i, score = c\<rparr>"
    unfolding in_set_conv_nth by blast
  then have p: "p < length embeddings" by simp
  have above: "\<not> greater c (score (ranked q embeddings ! p'))" if "p' < p" for p'
  proof -
    have "sorted_wrt (\<lambda>x y. \<not> greater (score y) (score x)) (ranked q embeddings)"
      using numbers by (rule ranked_descending_wrt)
    then have "\<not> greater (score (ranked q embeddings ! p)) (score (ranked q embeddings ! p'))"
      using that p by (intro sorted_wrt_nth_less) simp_all
    then show ?thesis by (simp add: at)
  qed
  have pos: "\<exists>p < length embeddings.
            ranked q embeddings ! p = \<lparr>idx = i, score = c\<rparr> \<and>
            (\<forall>p' < p. \<not> greater c (score (ranked q embeddings ! p')))"
    using p at above by blast
  have first: "hd (ranked q embeddings) = \<lparr>idx = i, score = c\<rparr> \<longleftrightarrow>
            (\<forall>j < length embeddings. \<not> greater (cosineSimilarity q (embeddings ! j)) c) \<and>
            (\<forall>j < i. greater c (cosineSimilarity q (embeddings ! j)))"
  proof
    assume h: "hd (ranked q embeddings) = \<lparr>idx = i, score = c\<rparr>"
    then have h': "hd (ranked q embeddings) = ?xs ! i" by (simp add: entry)
    have le: "val (score (?xs ! j)) \<le> val (score (?xs ! i))" if "j < length embeddings" for j
      using ranked_hd_max [OF numbers in_xs [OF that]] h' by simp
    have "\<not> greater (cosineSimilarity q (embeddings ! j)) c" if "j < length embeddings" for j
      using le [OF that] gr [OF that i] by (simp add: cj [OF that] ci)
    moreover have "greater c (cosineSimilarity q (embeddings ! j))" if "j < i" for j
    proof -
      have jl: "j < length embeddings" using that i by simp
      have "val (score (?xs ! j)) \<noteq> val (score (?xs ! i))"
        using numbers i h' that by (rule ranked_first_conv)
      with le [OF jl] have "val (score (?xs ! j)) < val (score (?xs ! i))" by simp
      then show ?thesis using gr [OF i jl] by (simp add: cj [OF jl] ci)
    qed
    ultimately show "(\<forall>j < length embeddings. \<not> greater (cosineSimilarity q (embeddings ! j)) c) \<and>
            (\<forall>j < i. greater c (cosineSimilarity q (embeddings ! j)))" by blast
  next
    assume a: "(\<forall>j < length embeddings. \<not> greater (cosineSimilarity q (embeddings ! j)) c) \<and>
            (\<forall>j < i. greater c (cosineSimilarity q (embeddings ! j)))"
    have top: "\<forall>t \<in> set ?xs. val (score t) \<le> val (score (?xs ! i))"
    proof
      fix t
      assume "t \<in> set ?xs"
      then obtain j where j: "j < length embeddings" and t: "t = ?xs ! j"
        by (auto simp: in_set_conv_nth)
      from a j have "\<not> greater (cosineSimilarity q (embeddings ! j)) c" by blast
      then show "val (score t) \<le> val (score (?xs ! i))"
        using gr [OF j i] by (simp add: t cj [OF j] ci)
    qed
    have before: "\<forall>j < i. val (score (?xs ! j)) \<noteq> val (score (?xs ! i))"
    proof (intro allI impI)
      fix j
      assume ji: "j < i"
      then have jl: "j < length embeddings" using i by simp
      from a ji have "greater c (cosineSimilarity q (embeddings ! j))" by blast
      then show "val (score (?xs ! j)) \<noteq> val (score (?xs ! i))"
        using gr [OF i jl] by (simp add: cj [OF jl] ci)
    qed
    from ranked_first [OF numbers i top before]
    show "hd (ranked q embeddings) = \<lparr>idx = i, score = c\<rparr>" by (simp add: entry)
  qed
  show ?thesis
    using formula short self zero_vec zero near pos first by (intro conjI)
qed

theorem similarity_and_rank_witness:
  "cosineSimilarity (map ofInt [0, 1]) (map (map ofInt) [[1, 0], [0, 1], [0, 2]] ! 1) =
     Number False 1 \<and>
   (\<exists>r. cosineSimilarity (map ofInt [0, 1]) (map (map ofInt) [[1, 0], [0, 1], [0, 2]] ! 1) =
          Number False r \<and> \<bar>r - 1\<bar> \<le> 5 / 2 ^ 53) \<and>
   hd (ranked (map ofInt [0, 1]) (map (map ofInt) [[1, 0], [0, 1], [0, 2]])) =
     \<lparr>idx = 1, score = Number False 1\<rparr> \<and>
   cosineSimilarity (map ofInt [0, 0]) (map (map ofInt) [[0, 0]] ! 0) = Number False 0 \<and>
   cosineSimilarity (map ofInt [1, 1]) (map ofInt [1]) = NaN"
proof -
  let ?q = "map ofInt [0, 1]"
  let ?E = "map (map ofInt) [[1, 0], [0, 1], [0, 2]]"
  have r4: "rounded False 4 = Number False 4" using rounded_nat [of 4 False] by simp
  have cs: "cosineSimilarity [Number False 0, Number False 1] [Number False 1, Number False 0] =
              Number False 0"
    "cosineSimilarity [Number False 0, Number False 1] [Number False 0, Number False 1] =
       Number False 1"
    "cosineSimilarity [Number False 0, Number False 1] [Number False 0, Number False 2] =
       Number False 1"
    by (simp_all add: cosineSimilarity_def upt_rec item_def rounded_zero rounded_small r4
        orOne_def)
  have i: "1 < length ?E" by simp
  have same: "?E ! 1 = ?q" by simp
  have numbers: "\<forall>v \<in> set ?E. cosineSimilarity ?q v \<noteq> NaN"
    by (simp add: ofInt_def cs)
  have c1: "cosineSimilarity ?q (?E ! 1) = Number False 1"
    by (simp add: ofInt_def cs)
  have s1: "dotProduct ?q ?q = Number False 1"
    by (simp add: dotProduct_def ofInt_def rounded_zero rounded_small)
  note inst = similarity_and_rank [OF i same numbers refl refl]
  have range: "dotProduct ?q ?q = Number False 1 \<and> 2 powi (- 1021) \<le> (1::real) \<and>
      (1::real) \<le> 2 ^ 1022"
  proof -
    have "(2::real) powi (- 1021) \<le> 2 powi 0" by (rule power_int_increasing) simp_all
    then show ?thesis using s1 by simp
  qed
  have near: "\<exists>r. cosineSimilarity ?q (?E ! 1) = Number False r \<and> \<bar>r - 1\<bar> \<le> 5 / 2 ^ 53"
    using inst [THEN conjunct2, THEN conjunct2, THEN conjunct2, THEN conjunct2, THEN conjunct2,
        THEN conjunct1, THEN spec, THEN mp, OF range] .
  have cond: "(\<forall>j < length ?E. \<not> greater (cosineSimilarity ?q (?E ! j))
                                    (cosineSimilarity ?q (?E ! 1))) \<and>
              (\<forall>j < 1. greater (cosineSimilarity ?q (?E ! 1)) (cosineSimilarity ?q (?E ! j)))"
    by (auto simp: less_Suc_eq ofInt_def cs)
  have first: "hd (ranked ?q ?E) = \<lparr>idx = 1, score = cosineSimilarity ?q (?E ! 1)\<rparr>"
    using inst [THEN conjunct2, THEN conjunct2, THEN conjunct2, THEN conjunct2, THEN conjunct2,
        THEN conjunct2, THEN conjunct2, THEN iffD2, OF cond] .
  have i0: "0 < length (map (map ofInt) [[0, 0 :: int]])" by simp
  have same0: "map (map ofInt) [[0, 0]] ! 0 = map ofInt [0, 0]" by simp
  have z: "cosineSimilarity [Number False 0, Number False 0] [Number False 0, Number False 0] =
      Number False 0"
    unfolding cosineSimilarity_def by (simp add: upt_rec item_def rounded_zero orOne_def)
  have numbers0: "\<forall>v \<in> set (map (map ofInt) [[0, 0]]). cosineSimilarity (map ofInt [0, 0]) v \<noteq> NaN"
    by (simp add: ofInt_def z)
  note inst0 = similarity_and_rank [OF i0 same0 numbers0 refl refl]
  have zv: "\<forall>x \<in> set (map ofInt [0, 0]). \<exists>sg. x = Number sg 0" by (auto simp: ofInt_def)
  have s0: "dotProduct (map ofInt [0, 0]) (map ofInt [0, 0]) = Number False 0"
    using inst0 [THEN conjunct2, THEN conjunct2, THEN conjunct2, THEN conjunct1, THEN mp, OF zv] .
  have c0: "cosineSimilarity (map ofInt [0, 0]) (map (map ofInt) [[0, 0]] ! 0) = Number False 0"
    using inst0 [THEN conjunct2, THEN conjunct2, THEN conjunct2, THEN conjunct2, THEN conjunct1,
        THEN mp, OF s0] .
  have "length (map ofInt [1]) < length (map ofInt [1, 1])" by simp
  then have sh: "cosineSimilarity (map ofInt [1, 1]) (map ofInt [1]) = NaN"
    using inst [THEN conjunct2, THEN conjunct1] by blast
  have first': "hd (ranked ?q ?E) = \<lparr>idx = 1, score = Number False 1\<rparr>"
    using first unfolding c1 .
  from c1 near first' c0 sh show ?thesis by (intro conjI)
qed

subsection \<open>Retriever and ContextAssembler: the assembled context\<close>

lemma uniqueById_subseq: "subseq (uniqueById seen cs) cs"
  by (induction cs arbitrary: seen) (auto intro: list_emb_Cons)

lemma uniqueById_ids:
  "set (map chunk_id (uniqueById seen cs)) = set (map chunk_id cs) - set seen"
  by (induction cs arbitrary: seen) auto

lemma uniqueById_distinct: "distinct (map chunk_id (uniqueById seen cs))"
proof (induction cs arbitrary: seen)
  case Nil
  then show ?case by simp
next
  case (Cons c cs)
  have "chunk_id c \<notin> set (map chunk_id (uniqueById (chunk_id c # seen) cs))"
    by (simp only: uniqueById_ids) simp
  with Cons.IH show ?case by simp
qed

lemma uniqueById_first:
  assumes "c \<in> set cs" and "chunk_id c \<notin> set seen"
  shows "\<exists>d \<in> set (uniqueById seen cs). chunk_id d = chunk_id c"
proof -
  have "chunk_id c \<in> set (map chunk_id cs) - set seen" using assms by simp
  then have "chunk_id c \<in> set (map chunk_id (uniqueById seen cs))"
    by (simp only: uniqueById_ids)
  then show ?thesis by auto
qed

lemma firstWithKey_props:
  "length (firstWithKey k chunks) \<le> 1 \<and>
   (\<forall>c \<in> set (firstWithKey k chunks). c \<in> set chunks \<and> chunk_key c = k) \<and>
   (firstWithKey k chunks = [] \<longleftrightarrow> (\<forall>c \<in> set chunks. chunk_key c \<noteq> k))"
proof (intro conjI)
  show "length (firstWithKey k chunks) \<le> 1"
    by (simp add: firstWithKey_def)
  have "set (take 1 (filter (\<lambda>c. chunk_key c = k) chunks)) \<subseteq> set (filter (\<lambda>c. chunk_key c = k) chunks)"
    by (rule set_take_subset)
  then show "\<forall>c \<in> set (firstWithKey k chunks). c \<in> set chunks \<and> chunk_key c = k"
    by (auto simp: firstWithKey_def)
  show "firstWithKey k chunks = [] \<longleftrightarrow> (\<forall>c \<in> set chunks. chunk_key c \<noteq> k)"
    by (simp add: firstWithKey_def filter_empty_conv)
qed

lemma uniqueById_keeps_first:
  "uniqueById seen cs =
     map ((!) cs)
       (filter (\<lambda>i. chunk_id (cs ! i) \<notin> set seen \<union> chunk_id ` set (take i cs)) [0..<length cs])"
proof (induction cs arbitrary: seen)
  case Nil
  then show ?case by simp
next
  case (Cons c cs)
  let ?P = "\<lambda>i. chunk_id ((c # cs) ! i) \<notin> set seen \<union> chunk_id ` set (take i (c # cs))"
  have upt: "[0..<length (c # cs)] = 0 # map Suc [0..<length cs]"
    by (simp add: upt_conv_Cons map_Suc_upt del: upt_Suc)
  have tail: "map ((!) (c # cs)) (filter ?P (map Suc [0..<length cs])) =
      map ((!) cs)
        (filter (\<lambda>i. chunk_id (cs ! i) \<notin> set (chunk_id c # seen) \<union> chunk_id ` set (take i cs))
           [0..<length cs])"
    by (simp add: filter_map comp_def conj_ac)
  show ?case
  proof (cases "chunk_id c \<in> set seen")
    case True
    then have same: "set (chunk_id c # seen) = set seen" by auto
    have "uniqueById seen (c # cs) = uniqueById seen cs" using True by simp
    also have "\<dots> = map ((!) cs)
        (filter (\<lambda>i. chunk_id (cs ! i) \<notin> set seen \<union> chunk_id ` set (take i cs)) [0..<length cs])"
      by (rule Cons.IH)
    also have "\<dots> = map ((!) (c # cs)) (filter ?P (map Suc [0..<length cs]))"
      unfolding tail same ..
    also have "\<dots> = map ((!) (c # cs)) (filter ?P [0..<length (c # cs)])"
      unfolding upt using True by simp
    finally show ?thesis .
  next
    case False
    have "uniqueById seen (c # cs) = c # uniqueById (chunk_id c # seen) cs" using False by simp
    also have "uniqueById (chunk_id c # seen) cs = map ((!) cs)
        (filter (\<lambda>i. chunk_id (cs ! i) \<notin> set (chunk_id c # seen) \<union> chunk_id ` set (take i cs))
           [0..<length cs])"
      by (rule Cons.IH)
    also have "\<dots> = map ((!) (c # cs)) (filter ?P (map Suc [0..<length cs]))"
      unfolding tail ..
    also have "c # \<dots> = map ((!) (c # cs)) (filter ?P [0..<length (c # cs)])"
      unfolding upt using False by simp
    finally show ?thesis .
  qed
qed

lemma uniqueById_filter:
  assumes "inj_on chunk_id (P \<union> set cs)" and "distinct cs" and "set seen = chunk_id ` P"
  shows "uniqueById seen cs = filter (\<lambda>c. c \<notin> P) cs"
  using assms
proof (induction cs arbitrary: seen P)
  case Nil
  then show ?case by simp
next
  case (Cons c cs)
  have mem: "chunk_id c \<in> set seen \<longleftrightarrow> c \<in> P"
  proof
    assume "chunk_id c \<in> set seen"
    then obtain p where p: "p \<in> P" and eq: "chunk_id p = chunk_id c" using Cons.prems(3) by auto
    from Cons.prems(1) eq have "p = c" by (rule inj_onD) (use p in simp_all)
    with p show "c \<in> P" by simp
  next
    assume "c \<in> P"
    then show "chunk_id c \<in> set seen" using Cons.prems(3) by simp
  qed
  show ?case
  proof (cases "c \<in> P")
    case True
    have "inj_on chunk_id (P \<union> set cs)"
      using Cons.prems(1) by (rule inj_on_subset) auto
    then have "uniqueById seen cs = filter (\<lambda>c. c \<notin> P) cs"
      using Cons.prems(2,3) by (intro Cons.IH) simp_all
    then show ?thesis using True mem by simp
  next
    case False
    have "insert c P \<union> set cs = P \<union> set (c # cs)" by auto
    then have "inj_on chunk_id (insert c P \<union> set cs)" using Cons.prems(1) by simp
    moreover have "distinct cs" using Cons.prems(2) by simp
    moreover have "set (chunk_id c # seen) = chunk_id ` insert c P" using Cons.prems(3) by simp
    ultimately have "uniqueById (chunk_id c # seen) cs = filter (\<lambda>x. x \<notin> insert c P) cs"
      by (rule Cons.IH)
    also have "\<dots> = filter (\<lambda>x. x \<notin> P) cs"
      using Cons.prems(2) by (intro filter_cong) auto
    finally show ?thesis using False mem by simp
  qed
qed

lemma uniqueById_append:
  assumes "inj_on chunk_id (P \<union> set xs \<union> set ys)" and "distinct xs" and "P \<inter> set xs = {}"
    and "distinct ys" and "set seen = chunk_id ` P"
  shows "uniqueById seen (xs @ ys) = xs @ filter (\<lambda>c. c \<notin> P \<union> set xs) ys"
  using assms
proof (induction xs arbitrary: seen P)
  case Nil
  then show ?case using uniqueById_filter [of P ys seen] by simp
next
  case (Cons x xs)
  have xP: "x \<notin> P" using Cons.prems(3) by simp
  have "chunk_id x \<notin> set seen"
  proof
    assume "chunk_id x \<in> set seen"
    then obtain p where p: "p \<in> P" and eq: "chunk_id p = chunk_id x" using Cons.prems(5) by auto
    from Cons.prems(1) eq have "p = x" by (rule inj_onD) (use p in simp_all)
    with p xP show False by simp
  qed
  then have step: "uniqueById seen ((x # xs) @ ys) = x # uniqueById (chunk_id x # seen) (xs @ ys)"
    by simp
  have "insert x P \<union> set xs \<union> set ys = P \<union> set (x # xs) \<union> set ys" by auto
  then have "inj_on chunk_id (insert x P \<union> set xs \<union> set ys)" using Cons.prems(1) by simp
  moreover have "distinct xs" using Cons.prems(2) by simp
  moreover have "insert x P \<inter> set xs = {}" using Cons.prems(2,3) by auto
  moreover have "set (chunk_id x # seen) = chunk_id ` insert x P" using Cons.prems(5) by simp
  ultimately have "uniqueById (chunk_id x # seen) (xs @ ys) =
      xs @ filter (\<lambda>c. c \<notin> insert x P \<union> set xs) ys"
    using Cons.prems(4) by (intro Cons.IH)
  also have "filter (\<lambda>c. c \<notin> insert x P \<union> set xs) ys = filter (\<lambda>c. c \<notin> P \<union> set (x # xs)) ys"
    by (intro filter_cong) auto
  finally show ?case unfolding step by simp
qed

lemma scoreAll_idx: "map idx (scoreAll q E) = [0..<length E]"
proof -
  have "map idx (scoreAll q E) = map fst (enumerate 0 E)"
    by (simp add: scoreAll_def split_beta comp_def)
  then show ?thesis by simp
qed

lemma ranked_distinct_idx: "distinct (map idx (ranked q E))"
proof -
  have "distinct (map idx (scoreAll q E))" by (simp add: scoreAll_idx)
  then have d: "distinct (scoreAll q E)" and inj: "inj_on idx (set (scoreAll q E))"
    by (simp_all add: distinct_map)
  from d have dr: "distinct (ranked q E)" unfolding ranked_def by (rule distinct_sortBy)
  from inj have "inj_on idx (set (ranked q E))" by (simp add: ranked_set)
  with dr show ?thesis by (simp add: distinct_map)
qed

lemma top_descending:
  assumes "\<forall>v \<in> set E. cosineSimilarity q v \<noteq> NaN"
  shows "sorted_wrt (\<lambda>x y. \<not> greater y x) (map score (take k (ranked q E)))"
proof -
  have "sorted_wrt (\<lambda>x y. \<not> greater (score y) (score x)) (take k (ranked q E))"
    using ranked_descending_wrt [OF assms] by (rule sorted_wrt_take)
  then show ?thesis by (simp add: sorted_wrt_map)
qed

lemma top_dominates:
  assumes "\<forall>v \<in> set E. cosineSimilarity q v \<noteq> NaN"
    and "s \<in> set (take k (ranked q E))" and "t \<in> set (drop k (ranked q E))"
  shows "\<not> greater (score t) (score s)"
proof -
  have "sorted_wrt (\<lambda>x y. \<not> greater (score y) (score x)) (take k (ranked q E) @ drop k (ranked q E))"
    using ranked_descending_wrt [OF assms(1)] by simp
  then have "\<forall>x \<in> set (take k (ranked q E)). \<forall>y \<in> set (drop k (ranked q E)).
      \<not> greater (score y) (score x)"
    unfolding sorted_wrt_append by blast
  with assms(2,3) show ?thesis by blast
qed

lemma top_entries:
  assumes "s \<in> set (take k (ranked q E))"
  shows "idx s < length E \<and> score s = cosineSimilarity q (E ! idx s)"
proof -
  from assms have "s \<in> set (ranked q E)" by (rule in_set_takeD)
  then show ?thesis by (simp add: ranked_set scoreAll_set)
qed

lemma topKFor_values:
  "topKFor key = (if key = ''cheapest'' \<or> key = ''comparison'' then 7 else 4)"
  by (simp add: topKFor_def RETRIEVAL_TOP_K_BROAD_def RETRIEVAL_TOP_K_DEFAULT_def)

lemma selectedChunks_in_corpus:
  assumes "length embeddings = length chunks" and "s \<in> set (take k (ranked q embeddings))"
  shows "chunks ! idx s \<in> set chunks"
  using top_entries [OF assms(2)] assms(1) by simp

lemma firstWithKey_distinct:
  "distinct (firstWithKey ''intro'' chunks @ firstWithKey ''footer'' chunks)"
proof -
  have one: "distinct xs" if "length xs \<le> 1" for xs :: "chunk list"
    using that by (cases xs) simp_all
  have "distinct (firstWithKey ''intro'' chunks)" "distinct (firstWithKey ''footer'' chunks)"
    using firstWithKey_props by (simp_all add: one)
  moreover have "set (firstWithKey ''intro'' chunks) \<inter> set (firstWithKey ''footer'' chunks) = {}"
  proof -
    have "chunk_key c = ''intro''" if "c \<in> set (firstWithKey ''intro'' chunks)" for c
      using firstWithKey_props [of "''intro''" chunks] that by blast
    moreover have "chunk_key c = ''footer''" if "c \<in> set (firstWithKey ''footer'' chunks)" for c
      using firstWithKey_props [of "''footer''" chunks] that by blast
    ultimately show ?thesis by fastforce
  qed
  ultimately show ?thesis by simp
qed

lemma selected_distinct:
  assumes "length embeddings = length chunks" and "distinct chunks"
  shows "distinct (map (\<lambda>s. chunks ! idx s) (take k (ranked q embeddings)))"
proof -
  have d: "distinct (map idx (take k (ranked q embeddings)))"
    unfolding take_map [symmetric] by (rule distinct_take [OF ranked_distinct_idx])
  have "set (map idx (take k (ranked q embeddings))) \<subseteq> {..<length chunks}"
    using top_entries [of _ k q embeddings] assms(1) by auto
  then have "inj_on ((!) chunks) (set (map idx (take k (ranked q embeddings))))"
    using inj_on_nth [OF assms(2), of "{..<length chunks}"]
    by (meson inj_on_subset lessThan_iff)
  with d have "distinct (map ((!) chunks) (map idx (take k (ranked q embeddings))))"
    by (simp only: distinct_map)
  then show ?thesis by (simp add: comp_def)
qed

text \<open>
  Claim C8. Let the scores of the chunks be numbers. The retriever takes the first \<open>k\<close>
  entries of the descending, stable sort of the similarities, where \<open>k\<close> is 7 when the
  detected intent is cheapest or comparison and 4 otherwise: these are \<open>k\<close> different chunks
  of the corpus (all of them when the corpus has fewer), no later one with a greater
  similarity than an earlier one, and no chunk left out has a greater similarity than one
  taken. At most one chunk with key intro and at most one with key footer are added, the
  first of the corpus each, and one is added whenever the corpus has one. The chunks of the
  context are the list intro, footer, ranked chunks, of which exactly those are kept whose
  id does not occur earlier in that list, in the order of the list; so no id occurs twice
  and no id is lost, and when the ids of the corpus are distinct the context is the intro
  chunk, the footer chunk and then the ranked chunks other than these two, in the order of
  their rank. The context is the labelled blocks of these chunks, joined by blank lines and
  cut to \<open>MAX_MENU_CHUNK\<close> characters.
\<close>

theorem retrieval_context:
  assumes aligned: "length embeddings = length chunks"
    and numbers: "\<forall>v \<in> set embeddings. cosineSimilarity q v \<noteq> NaN"
    and R: "R = buildMenuContextForQuery chunks embeddings q intentEmbeddings"
    and k: "k = topKFor (intent R)"
    and best: "best = take k (ranked q embeddings)"
    and ctx: "ctx = firstWithKey ''intro'' chunks @ firstWithKey ''footer'' chunks @
                    map (\<lambda>s. chunks ! idx s) best"
    and U: "U = contextChunks chunks embeddings q k"
  shows "intent R = fst (detectIntent q intentEmbeddings) \<and>
         k = (if intent R = ''cheapest'' \<or> intent R = ''comparison'' then 7 else 4) \<and>
         length best = min k (length chunks) \<and>
         distinct (map idx best) \<and>
         sorted_wrt (\<lambda>x y. \<not> greater y x) (map score best) \<and>
         (\<forall>s \<in> set best. idx s < length chunks \<and> chunks ! idx s \<in> set chunks \<and>
                         score s = cosineSimilarity q (embeddings ! idx s)) \<and>
         (\<forall>s \<in> set best. \<forall>t \<in> set (drop k (ranked q embeddings)).
            \<not> greater (score t) (score s)) \<and>
         (\<forall>key \<in> {''intro'', ''footer''}.
            length (firstWithKey key chunks) \<le> 1 \<and>
            (\<forall>c \<in> set (firstWithKey key chunks). c \<in> set chunks \<and> chunk_key c = key) \<and>
            (firstWithKey key chunks = [] \<longleftrightarrow> (\<forall>c \<in> set chunks. chunk_key c \<noteq> key))) \<and>
         U = map ((!) ctx)
               (filter (\<lambda>i. chunk_id (ctx ! i) \<notin> chunk_id ` set (take i ctx)) [0..<length ctx]) \<and>
         (distinct (map chunk_id chunks) \<longrightarrow>
            U = firstWithKey ''intro'' chunks @ firstWithKey ''footer'' chunks @
                filter (\<lambda>c. c \<notin> set (firstWithKey ''intro'' chunks @ firstWithKey ''footer'' chunks))
                  (map (\<lambda>s. chunks ! idx s) best)) \<and>
         subseq U ctx \<and>
         distinct (map chunk_id U) \<and>
         set (map chunk_id U) = set (map chunk_id ctx) \<and>
         menuContext R = take MAX_MENU_CHUNK (join [LF, LF] (map block U)) \<and>
         length (menuContext R) \<le> 15000"
proof -
  let ?I = "firstWithKey ''intro'' chunks"
  let ?F = "firstWithKey ''footer'' chunks"
  let ?S = "map (\<lambda>s. chunks ! idx s) best"
  have int: "intent R = fst (detectIntent q intentEmbeddings)"
    by (simp add: R buildMenuContextForQuery_def Let_def)
  have kv: "k = (if intent R = ''cheapest'' \<or> intent R = ''comparison'' then 7 else 4)"
    unfolding k by (rule topKFor_values)
  have len: "length best = min k (length chunks)"
    by (simp add: best aligned)
  have dist: "distinct (map idx best)"
    unfolding best take_map [symmetric] by (rule distinct_take [OF ranked_distinct_idx])
  have desc: "sorted_wrt (\<lambda>x y. \<not> greater y x) (map score best)"
    unfolding best using numbers by (rule top_descending)
  have ent: "\<forall>s \<in> set best. idx s < length chunks \<and> chunks ! idx s \<in> set chunks \<and>
                         score s = cosineSimilarity q (embeddings ! idx s)"
    using top_entries [of _ k q embeddings] aligned unfolding best by simp
  have dom: "\<forall>s \<in> set best. \<forall>t \<in> set (drop k (ranked q embeddings)).
            \<not> greater (score t) (score s)"
    using top_dominates [OF numbers, of _ k] unfolding best by blast
  have fw: "\<forall>key \<in> {''intro'', ''footer''}.
            length (firstWithKey key chunks) \<le> 1 \<and>
            (\<forall>c \<in> set (firstWithKey key chunks). c \<in> set chunks \<and> chunk_key c = key) \<and>
            (firstWithKey key chunks = [] \<longleftrightarrow> (\<forall>c \<in> set chunks. chunk_key c \<noteq> key))"
    using firstWithKey_props [of "''intro''" chunks] firstWithKey_props [of "''footer''" chunks]
    by simp
  have Uc: "U = uniqueById [] ctx"
    by (simp add: U ctx best contextChunks_def selectedChunks_def)
  have first: "U = map ((!) ctx)
               (filter (\<lambda>i. chunk_id (ctx ! i) \<notin> chunk_id ` set (take i ctx)) [0..<length ctx])"
    unfolding Uc uniqueById_keeps_first [of "[]" ctx] by simp
  have order: "U = ?I @ ?F @ filter (\<lambda>c. c \<notin> set (?I @ ?F)) ?S"
    if ids: "distinct (map chunk_id chunks)"
  proof -
    from ids have dc: "distinct chunks" and inj: "inj_on chunk_id (set chunks)"
      by (simp_all add: distinct_map)
    have "set ?I \<subseteq> set chunks" "set ?F \<subseteq> set chunks"
      using firstWithKey_props [of "''intro''" chunks] firstWithKey_props [of "''footer''" chunks]
      by blast+
    moreover have "set ?S \<subseteq> set chunks" using ent by auto
    ultimately have "{} \<union> set (?I @ ?F) \<union> set ?S \<subseteq> set chunks" by simp
    with inj have i1: "inj_on chunk_id ({} \<union> set (?I @ ?F) \<union> set ?S)"
      by (rule inj_on_subset)
    have i2: "distinct (?I @ ?F)" by (rule firstWithKey_distinct)
    have i4: "distinct ?S" unfolding best using aligned dc by (rule selected_distinct)
    have "uniqueById [] ((?I @ ?F) @ ?S) =
        (?I @ ?F) @ filter (\<lambda>c. c \<notin> {} \<union> set (?I @ ?F)) ?S"
      using i1 i2 _ i4 by (rule uniqueById_append) simp_all
    then show ?thesis unfolding Uc ctx by simp
  qed
  have sub: "subseq U ctx" unfolding Uc by (rule uniqueById_subseq)
  have dU: "distinct (map chunk_id U)" unfolding Uc by (rule uniqueById_distinct)
  have ids: "set (map chunk_id U) = set (map chunk_id ctx)"
    unfolding Uc by (simp only: uniqueById_ids) simp
  have kk: "k = topKFor (fst (detectIntent q intentEmbeddings))"
    using k int by simp
  have mc: "menuContext R = take MAX_MENU_CHUNK (join [LF, LF] (map block U))"
    unfolding R U kk by (simp add: buildMenuContextForQuery_def Let_def)
  have bound: "length (menuContext R) \<le> 15000"
    unfolding mc by (simp add: MAX_MENU_CHUNK_def)
  from order have order': "distinct (map chunk_id chunks) \<longrightarrow>
            U = ?I @ ?F @ filter (\<lambda>c. c \<notin> set (?I @ ?F)) ?S" by blast
  show ?thesis
    using int kv len dist desc ent dom fw first order' sub dU ids mc bound by (intro conjI)
qed

theorem retrieval_context_witness:
  "intent (buildMenuContextForQuery menuChunks menuVectors (map ofInt [1, 0]) intentVectors) =
     ''general'' \<and>
   ranked (map ofInt [1, 0]) menuVectors =
      [\<lparr>idx = 1, score = ofInt 1\<rparr>, \<lparr>idx = 4, score = ofInt 1\<rparr>, \<lparr>idx = 0, score = ofInt 0\<rparr>,
       \<lparr>idx = 2, score = ofInt 0\<rparr>, \<lparr>idx = 3, score = ofInt (- 1)\<rparr>,
       \<lparr>idx = 5, score = ofInt (- 1)\<rparr>] \<and>
   map chunk_id (contextChunks menuChunks menuVectors (map ofInt [1, 0]) 4) =
     [''intro:1'', ''footer:1'', ''meze:1'', ''drinks:1'', ''soups:1''] \<and>
   menuContext (buildMenuContextForQuery menuChunks menuVectors (map ofInt [1, 0]) intentVectors) =
     ''### INTRO (intro:1)'' @ [LF] @ ''Turkiz'' @ [LF, LF] @
     ''### FOOTER (footer:1)'' @ [LF] @ ''Az arak'' @ [LF, LF] @
     ''### MEZE (meze:1)'' @ [LF] @ ''Hummus 1200'' @ [LF, LF] @
     ''### DRINKS (drinks:1)'' @ [LF] @ ''Ayran 600'' @ [LF, LF] @
     ''### SOUPS (soups:1)'' @ [LF] @ ''Mercimek 1500''"
proof -
  let ?q = "map ofInt [1, 0]"
  let ?R = "buildMenuContextForQuery menuChunks menuVectors ?q intentVectors"
  have cs: "cosineSimilarity [Number False 1, Number False 0] [Number False 0, Number False 1] =
              Number False 0"
    "cosineSimilarity [Number False 1, Number False 0] [Number False 1, Number False 0] =
       Number False 1"
    "cosineSimilarity [Number False 1, Number False 0] [Number False 0, Number True 1] =
       Number False 0"
    "cosineSimilarity [Number False 1, Number False 0] [Number True 1, Number False 0] =
       Number True 1"
    by (simp_all add: cosineSimilarity_def upt_rec item_def rounded_zero rounded_small orOne_def)
  have det: "fst (detectIntent ?q intentVectors) = ''general''"
    by (simp add: detectIntent_def intentKeys_def intentVectors_def ofInt_def cs)
  have rk: "ranked ?q menuVectors =
      [\<lparr>idx = 1, score = ofInt 1\<rparr>, \<lparr>idx = 4, score = ofInt 1\<rparr>, \<lparr>idx = 0, score = ofInt 0\<rparr>,
       \<lparr>idx = 2, score = ofInt 0\<rparr>, \<lparr>idx = 3, score = ofInt (- 1)\<rparr>,
       \<lparr>idx = 5, score = ofInt (- 1)\<rparr>]"
    by (simp add: ranked_def scoreAll_def menuVectors_def ofInt_def cs sortBy_def
        compareScores_def sub_d_def positive_def rounded_small)
  have aligned: "length menuVectors = length menuChunks"
    by (simp add: menuVectors_def menuChunks_def)
  have numbers: "\<forall>v \<in> set menuVectors. cosineSimilarity ?q v \<noteq> NaN"
    by (simp add: menuVectors_def ofInt_def cs)
  have ids: "distinct (map chunk_id menuChunks)"
    by (simp add: menuChunks_def)
  note inst = retrieval_context [OF aligned numbers refl refl refl refl refl, of intentVectors]
  from inst [THEN conjunct1] det have int: "intent ?R = ''general''" by simp
  then have k4: "topKFor (intent ?R) = 4" by (simp add: topKFor_values)
  have "distinct (map chunk_id menuChunks) \<longrightarrow>
      contextChunks menuChunks menuVectors ?q (topKFor (intent ?R)) =
        firstWithKey ''intro'' menuChunks @ firstWithKey ''footer'' menuChunks @
        filter (\<lambda>c. c \<notin> set (firstWithKey ''intro'' menuChunks @ firstWithKey ''footer'' menuChunks))
          (map (\<lambda>s. menuChunks ! idx s) (take (topKFor (intent ?R)) (ranked ?q menuVectors)))"
    using inst by (elim conjE)
  then have "contextChunks menuChunks menuVectors ?q 4 =
        firstWithKey ''intro'' menuChunks @ firstWithKey ''footer'' menuChunks @
        filter (\<lambda>c. c \<notin> set (firstWithKey ''intro'' menuChunks @ firstWithKey ''footer'' menuChunks))
          (map (\<lambda>s. menuChunks ! idx s) (take 4 (ranked ?q menuVectors)))"
    using ids unfolding k4 by blast
  then have U4: "contextChunks menuChunks menuVectors ?q 4 =
      [menuChunks ! 0, menuChunks ! 5, menuChunks ! 1, menuChunks ! 4, menuChunks ! 2]"
    unfolding rk by (simp add: firstWithKey_def menuChunks_def)
  have "menuContext ?R = take MAX_MENU_CHUNK (join [LF, LF] (map block
      (contextChunks menuChunks menuVectors ?q (topKFor (intent ?R)))))"
    using inst by (elim conjE)
  then have mc: "menuContext ?R = take MAX_MENU_CHUNK (join [LF, LF] (map block
      [menuChunks ! 0, menuChunks ! 5, menuChunks ! 1, menuChunks ! 4, menuChunks ! 2]))"
    by (simp only: k4 U4)
  have blocks: "map block [menuChunks ! 0, menuChunks ! 5, menuChunks ! 1, menuChunks ! 4, menuChunks ! 2] =
      [''### INTRO (intro:1)'' @ [LF] @ ''Turkiz'',
       ''### FOOTER (footer:1)'' @ [LF] @ ''Az arak'',
       ''### MEZE (meze:1)'' @ [LF] @ ''Hummus 1200'',
       ''### DRINKS (drinks:1)'' @ [LF] @ ''Ayran 600'',
       ''### SOUPS (soups:1)'' @ [LF] @ ''Mercimek 1500'']"
    by (simp add: menuChunks_def block_def toUpperCase_def upperChar_def)
  have ctx: "menuContext ?R =
     ''### INTRO (intro:1)'' @ [LF] @ ''Turkiz'' @ [LF, LF] @
     ''### FOOTER (footer:1)'' @ [LF] @ ''Az arak'' @ [LF, LF] @
     ''### MEZE (meze:1)'' @ [LF] @ ''Hummus 1200'' @ [LF, LF] @
     ''### DRINKS (drinks:1)'' @ [LF] @ ''Ayran 600'' @ [LF, LF] @
     ''### SOUPS (soups:1)'' @ [LF] @ ''Mercimek 1500''"
    unfolding mc blocks by (simp add: MAX_MENU_CHUNK_def)
  have cids: "map chunk_id (contextChunks menuChunks menuVectors ?q 4) =
     [''intro:1'', ''footer:1'', ''meze:1'', ''drinks:1'', ''soups:1'']"
    unfolding U4 by (simp add: menuChunks_def)
  from int rk cids ctx show ?thesis by (intro conjI)
qed

subsection \<open>The guards inside the handlers\<close>

text \<open>
  A client without stored state whose calls all come within one window of the first call:
  the first twelve calls pass, every later one fails RATE_LIMIT with a retry-after of at
  least one second.
\<close>

lemma rate_limit_fresh_client:
  assumes fresh: "rs key = None"
    and window: "\<forall>t \<in> set tms. t - t0 \<le> RL_WINDOW_MS"
    and i: "i < length (t0 # tms)"
  shows "fst (rateCalls key (t0 # tms) rs) ! i =
     (if 12 \<le> i
      then Inl \<lparr>message = ''RATE_LIMIT'', statusCode = 429,
                 retryAfterSec = Some (retrySeconds (t0 + RL_WINDOW_MS - (t0 # tms) ! i)),
                 spam = False\<rparr>
      else Inr ()) \<and>
     1 \<le> retrySeconds (t0 + RL_WINDOW_MS - (t0 # tms) ! i)"
proof -
  let ?st = "\<lparr>windowStart = t0, count = 1, resetAt = t0 + RL_WINDOW_MS\<rparr>"
  have step: "applyRateLimitOrThrow t0 key rs = (Inr (), rs(key \<mapsto> ?st))"
    using fresh by (simp add: applyRateLimitOrThrow_def rateGet_def RL_LIMIT_def RL_WINDOW_MS_def)
  have "fst (rateCalls key (t0 # tms) rs) ! i =
     (if 12 \<le> i
      then Inl \<lparr>message = ''RATE_LIMIT'', statusCode = 429,
                 retryAfterSec = Some (retrySeconds (t0 + RL_WINDOW_MS - (t0 # tms) ! i)),
                 spam = False\<rparr>
      else Inr ())"
  proof (cases i)
    case 0
    then show ?thesis using step by (simp add: split_beta)
  next
    case (Suc j)
    have "(rs(key \<mapsto> ?st)) key = Some ?st" by simp
    moreover have "\<forall>t \<in> set tms. t - windowStart ?st \<le> RL_WINDOW_MS" using window by simp
    moreover have "j < length tms" using i Suc by simp
    ultimately have "fst (rateCalls key tms (rs(key \<mapsto> ?st))) ! j =
       (if count ?st + int j + 1 > RL_LIMIT
        then Inl \<lparr>message = ''RATE_LIMIT'', statusCode = 429,
                 retryAfterSec = Some (retrySeconds (resetAt ?st - tms ! j)), spam = False\<rparr>
        else Inr ())"
      by (rule rateCalls_within_window)
    then show ?thesis using step Suc by (simp add: split_beta RL_LIMIT_def)
  qed
  then show ?thesis by (simp add: retrySeconds_ge_1)
qed

text \<open>
  In the handlers the rate limiter runs before the spam guard. So a submission during a
  block is rejected by one of the two, with RATE_LIMIT or with COOLDOWN, and in both cases
  the spam state and the in-flight map stay as they are.
\<close>

lemma admit_blocked:
  assumes "spamState g key = Some st" and "blockedUntil st \<noteq> 0" and "tSpam clk < blockedUntil st"
  shows "\<exists>e g'. admit clk key g = (Inl e, g') \<and> spamState g' = spamState g \<and>
           inFlight g' = inFlight g \<and>
           (e = cooldownError (blockedUntil st) (tSpam clk) \<or> message e = ''RATE_LIMIT'')"
proof (cases "applyRateLimitOrThrow (tRate clk) key (rateState g)")
  case (Pair r rs')
  show ?thesis
  proof (cases r)
    case (Inl e)
    then have "message e = ''RATE_LIMIT''"
      using Pair by (auto simp: applyRateLimitOrThrow_def Let_def split: if_splits)
    then show ?thesis using Pair Inl by (simp add: admit_def)
  next
    case (Inr u)
    have "applySpamGuardOrThrow (tSpam clk) key (spamState g) =
        (Inl (cooldownError (blockedUntil st) (tSpam clk)), spamState g)"
      using assms by (rule cooldown_call)
    then show ?thesis using Pair Inr by (simp add: admit_def)
  qed
qed

end
